theory Spec2Isabelle
  imports
    Main
    "HOL-Library.Log_Nat"
    "HOL-Library.Word"
    "HOL-Library.Product_Lexorder"
    "HOL-Library.Multiset"
begin

section \<open>The bootstrap resampling package\<close>

text \<open>
  A shallow embedding of \<^verbatim>\<open>bootstrap.go\<close>: the three aggregators, the shared
  \<^verbatim>\<open>quantile\<close> helper, \<^verbatim>\<open>BasicResampler\<close> and \<^verbatim>\<open>PresampledResampler\<close>.

  Conventions of the embedding.
  \<^item> Go's \<^verbatim>\<open>int\<close> is taken as the 64-bit integer of the usual platforms and written
    as \<^typ>\<open>int\<close>; no counter of the package can leave the 64-bit range, since every
    one of them is bounded by a slice length.
  \<^item> A run-time panic is a value of type \<open>fault\<close>. The methods that mutate the
    receiver return the state they leave behind in both outcomes, since a panic
    does not undo the assignments made before it.
  \<^item> \<^verbatim>\<open>[]float64\<close> arguments are slices into a store of arrays, so that writes
    through one slice are seen through every slice of the same array.
  \<^item> \<^verbatim>\<open>sampleAggregates\<close> and \<^verbatim>\<open>samples\<close> are unexported fields that no method
    returns; they are kept as lists inside the receiver's record.
\<close>

subsection \<open>float64\<close>

text \<open>
  The finite values are rationals, and every arithmetic operation rounds the exact
  result to the nearest binary64 number, ties to even, as IEEE 754 prescribes. The
  model has one NaN and one zero: Go's comparisons do not tell \<open>-0\<close> from \<open>+0\<close>,
  and the package never divides by a value that can be zero.
\<close>

datatype float64 = NaN | PosInf | NegInf | Finite rat

definition pow2 :: "int \<Rightarrow> rat" where
  "pow2 e = (if 0 \<le> e then 2 ^ nat e else 1 / 2 ^ nat (- e))"

text \<open>\<open>ilog2 x\<close> is the binary exponent of a positive \<open>x\<close>: \<open>2 ^ ilog2 x \<le> x < 2 ^ (ilog2 x + 1)\<close>.\<close>

definition ilog2 :: "rat \<Rightarrow> int" where
  "ilog2 x = (if 1 \<le> x then bitlen \<lfloor>x\<rfloor> - 1 else - bitlen (\<lceil>1 / x\<rceil> - 1))"

definition round_even :: "rat \<Rightarrow> int" where
  "round_even x = (let f = \<lfloor>x\<rfloor>; r = x - of_int f in
     if r < 1 / 2 then f else if 1 / 2 < r then f + 1 else if even f then f else f + 1)"

text \<open>
  Rounding to binary64: 53 significant bits, the smallest unit \<open>2 ^ - 1074\<close>
  (subnormal numbers), overflow to an infinity from \<open>2 ^ 1024\<close> on.
\<close>

definition round64 :: "rat \<Rightarrow> float64" where
  "round64 x = (if x = 0 then Finite 0 else
     let e = max (ilog2 \<bar>x\<bar> - 52) (- 1074);
         m = round_even (x / pow2 e)
     in if 971 < e \<or> (e = 971 \<and> 2 ^ 53 \<le> \<bar>m\<bar>) then (if 0 < x then PosInf else NegInf)
        else Finite (of_int m * pow2 e))"

fun fadd :: "float64 \<Rightarrow> float64 \<Rightarrow> float64" where
  "fadd NaN _ = NaN"
| "fadd _ NaN = NaN"
| "fadd PosInf NegInf = NaN"
| "fadd NegInf PosInf = NaN"
| "fadd PosInf _ = PosInf"
| "fadd NegInf _ = NegInf"
| "fadd _ PosInf = PosInf"
| "fadd _ NegInf = NegInf"
| "fadd (Finite a) (Finite b) = round64 (a + b)"

definition fneg :: "float64 \<Rightarrow> float64" where
  "fneg x = (case x of NaN \<Rightarrow> NaN | PosInf \<Rightarrow> NegInf | NegInf \<Rightarrow> PosInf | Finite a \<Rightarrow> Finite (- a))"

text \<open>The sign of a value that is not NaN; the one zero of the model counts as positive.\<close>

definition negative :: "float64 \<Rightarrow> bool" where
  "negative x = (case x of NegInf \<Rightarrow> True | Finite a \<Rightarrow> a < 0 | _ \<Rightarrow> False)"

definition is_zero :: "float64 \<Rightarrow> bool" where
  "is_zero x = (x = Finite 0)"

definition is_inf :: "float64 \<Rightarrow> bool" where
  "is_inf x = (x = PosInf \<or> x = NegInf)"

definition signed_inf :: "bool \<Rightarrow> float64" where
  "signed_inf neg = (if neg then NegInf else PosInf)"

definition fmul :: "float64 \<Rightarrow> float64 \<Rightarrow> float64" where
  "fmul x y =
     (if x = NaN \<or> y = NaN then NaN
      else if (is_inf x \<and> is_zero y) \<or> (is_zero x \<and> is_inf y) then NaN
      else if is_inf x \<or> is_inf y then signed_inf (negative x \<noteq> negative y)
      else case (x, y) of (Finite a, Finite b) \<Rightarrow> round64 (a * b) | _ \<Rightarrow> NaN)"

definition fdiv :: "float64 \<Rightarrow> float64 \<Rightarrow> float64" where
  "fdiv x y =
     (if x = NaN \<or> y = NaN then NaN
      else if (is_inf x \<and> is_inf y) \<or> (is_zero x \<and> is_zero y) then NaN
      else if is_inf x \<or> is_zero y then signed_inf (negative x \<noteq> negative y)
      else if is_inf y then Finite 0
      else case (x, y) of (Finite a, Finite b) \<Rightarrow> round64 (a / b) | _ \<Rightarrow> NaN)"

text \<open>The conversion \<^verbatim>\<open>float64(n)\<close> of an integer.\<close>

definition float64_of_int :: "int \<Rightarrow> float64" where
  "float64_of_int n = round64 (of_int n)"

text \<open>
  The conversion \<^verbatim>\<open>int(x)\<close> discards the fraction (truncation towards zero). For
  a value that \<^verbatim>\<open>int\<close> cannot represent (NaN, an infinity, a magnitude of \<open>2 ^ 63\<close>
  or more) the language leaves the result to the implementation: \<open>None\<close>.
\<close>

definition int_of_float64 :: "float64 \<Rightarrow> int option" where
  "int_of_float64 x =
     (case x of
        Finite a \<Rightarrow>
          (let t = (if 0 \<le> a then \<lfloor>a\<rfloor> else \<lceil>a\<rceil>)
           in if - (2 ^ 63) \<le> t \<and> t < 2 ^ 63 then Some t else None)
      | _ \<Rightarrow> None)"

text \<open>
  \<^verbatim>\<open>sort.Float64s\<close> sorts in increasing order with NaN before every other value. The
  order is that of the keys below, and the sorted slice is determined by the
  multiset of its elements.
\<close>

fun float64_key :: "float64 \<Rightarrow> nat \<times> rat" where
  "float64_key NaN = (0, 0)"
| "float64_key NegInf = (1, 0)"
| "float64_key (Finite a) = (2, a)"
| "float64_key PosInf = (3, 0)"

definition Float64s :: "float64 list \<Rightarrow> float64 list" where
  "Float64s a = sort_key float64_key a"

definition ascending :: "float64 list \<Rightarrow> bool" where
  "ascending a = sorted (map float64_key a)"

subsection \<open>Panics, slices and the store\<close>

datatype fault =
    IndexOutOfRange int nat
  | IntegerDivideByZero
  | MakeSliceLenOutOfRange
  | ConversionUnspecified

text \<open>
  \<open>IndexOutOfRange i n\<close>, \<open>IntegerDivideByZero\<close> and \<open>MakeSliceLenOutOfRange\<close> are
  the run-time panics of Go; \<open>ConversionUnspecified\<close> marks an index that comes from
  a conversion whose result the language does not define.
\<close>

type_synonym heap = "float64 list list"

record slice =
  slice_array :: nat
  slice_low :: nat
  slice_len :: nat

definition valid_slice :: "heap \<Rightarrow> slice \<Rightarrow> bool" where
  "valid_slice h s =
     (slice_array s < length h \<and> slice_low s + slice_len s \<le> length (h ! slice_array s))"

definition contents :: "heap \<Rightarrow> slice \<Rightarrow> float64 list" where
  "contents h s = take (slice_len s) (drop (slice_low s) (h ! slice_array s))"

definition overwrite :: "heap \<Rightarrow> slice \<Rightarrow> float64 list \<Rightarrow> heap" where
  "overwrite h s new =
     (let old = h ! slice_array s
      in h[slice_array s := take (slice_low s) old @ new @ drop (slice_low s + slice_len s) old])"

definition load :: "heap \<Rightarrow> slice \<Rightarrow> int \<Rightarrow> fault + float64" where
  "load h s i =
     (if 0 \<le> i \<and> i < int (slice_len s)
      then Inr (h ! slice_array s ! (slice_low s + nat i))
      else Inl (IndexOutOfRange i (slice_len s)))"

definition store :: "heap \<Rightarrow> slice \<Rightarrow> int \<Rightarrow> float64 \<Rightarrow> fault + heap" where
  "store h s i v =
     (if 0 \<le> i \<and> i < int (slice_len s)
      then Inr (h[slice_array s := (h ! slice_array s)[slice_low s + nat i := v]])
      else Inl (IndexOutOfRange i (slice_len s)))"

text \<open>\<^verbatim>\<open>make([]float64, n)\<close> for a length \<open>n\<close>: a new array of zeros and the slice of all of it.\<close>

definition make_slice :: "heap \<Rightarrow> nat \<Rightarrow> heap \<times> slice" where
  "make_slice h n =
     (h @ [replicate n (Finite 0)], \<lparr>slice_array = length h, slice_low = 0, slice_len = n\<rparr>)"

text \<open>Indexing a slice that is a field of the receiver.\<close>

definition elem_at :: "'a list \<Rightarrow> int \<Rightarrow> fault + 'a" where
  "elem_at xs i =
     (if 0 \<le> i \<and> i < int (length xs) then Inr (xs ! nat i)
      else Inl (IndexOutOfRange i (length xs)))"

subsection \<open>The random source\<close>

text \<open>
  \<^verbatim>\<open>math/rand\<close> is not part of the package. A \<^verbatim>\<open>rand.Source\<close> is the sequence of
  the values its \<^verbatim>\<open>Int63\<close> will return, each a non-negative 63-bit integer, and
  \<^verbatim>\<open>rand.NewSource\<close> is a parameter \<open>NewSource\<close> of the two constructors.
\<close>

type_synonym source = "nat \<Rightarrow> 63 word"

definition Int63 :: "source \<Rightarrow> 63 word \<times> source" where
  "Int63 s = (s 0, \<lambda>k. s (Suc k))"

subsection \<open>Aggregators\<close>

datatype aggregator = SumAggregator | AverageAggregator | QuantileAggregator float64

definition quantile :: "float64 list \<Rightarrow> float64 \<Rightarrow> fault + float64" where
  "quantile vals q =
     (let len = int (length vals) in
      if len = 0 then Inr NaN
      else case int_of_float64 (fmul q (float64_of_int (len - 1))) of
             None \<Rightarrow> Inl ConversionUnspecified
           | Some index \<Rightarrow> elem_at vals index)"

definition sum_values :: "float64 list \<Rightarrow> float64" where
  "sum_values values = foldl fadd (Finite 0) values"

text \<open>
  \<open>Aggregate a values\<close> is the outcome of \<^verbatim>\<open>a.Aggregate\<close> on a slice with the
  elements \<open>values\<close>, and the elements of that slice afterwards: the quantile
  aggregator sorts its argument in place.
\<close>

fun Aggregate :: "aggregator \<Rightarrow> float64 list \<Rightarrow> (fault + float64) \<times> float64 list" where
  "Aggregate SumAggregator values = (Inr (sum_values values), values)"
| "Aggregate AverageAggregator values =
     (if length values = 0 then (Inr (Finite 0), values)
      else (Inr (fdiv (sum_values values) (float64_of_int (int (length values)))), values))"
| "Aggregate (QuantileAggregator q) values = (quantile (Float64s values) q, Float64s values)"

subsection \<open>BasicResampler\<close>

record resampler =
  aggregator :: aggregator
  iterations :: int
  sampleAggregates :: "float64 list"

record BasicResampler = resampler +
  r_source :: source

definition NewBasicResampler :: "(int \<Rightarrow> source) \<Rightarrow> aggregator \<Rightarrow> int \<Rightarrow> BasicResampler" where
  "NewBasicResampler NewSource a n =
     \<lparr>aggregator = a, iterations = n, sampleAggregates = [], r_source = NewSource 0\<rparr>"

text \<open>The inner loop of \<^verbatim>\<open>Resample\<close>, over the positions \<open>i\<close> of \<^verbatim>\<open>range values\<close>.\<close>

fun basic_draw ::
  "slice \<Rightarrow> slice \<Rightarrow> int \<Rightarrow> nat list \<Rightarrow> heap \<times> BasicResampler \<Rightarrow>
   fault \<times> heap \<times> BasicResampler + heap \<times> BasicResampler" where
  "basic_draw values scratch len [] st = Inr st"
| "basic_draw values scratch len (i # rest) (h, r) =
     (let (x, src) = Int63 (r_source r); r1 = r\<lparr>r_source := src\<rparr> in
      if len = 0 then Inl (IntegerDivideByZero, h, r1)
      else case load h values (uint x mod len) of
             Inl f \<Rightarrow> Inl (f, h, r1)
           | Inr v \<Rightarrow>
               (case store h scratch (int i) v of
                  Inl f \<Rightarrow> Inl (f, h, r1)
                | Inr h1 \<Rightarrow> basic_draw values scratch len rest (h1, r1)))"

text \<open>The outer loop, over the rounds \<open>0 \<le> i < r.iterations\<close>.\<close>

fun basic_rounds ::
  "slice \<Rightarrow> slice \<Rightarrow> int \<Rightarrow> nat list \<Rightarrow> heap \<times> BasicResampler \<Rightarrow>
   fault \<times> heap \<times> BasicResampler + heap \<times> BasicResampler" where
  "basic_rounds values scratch len [] st = Inr st"
| "basic_rounds values scratch len (i # rest) st =
     (case basic_draw values scratch len [0..<slice_len values] st of
        Inl e \<Rightarrow> Inl e
      | Inr (h1, r1) \<Rightarrow>
          (case Aggregate (aggregator r1) (contents h1 scratch) of
             (Inl f, after) \<Rightarrow> Inl (f, overwrite h1 scratch after, r1)
           | (Inr a, after) \<Rightarrow>
               basic_rounds values scratch len rest
                 (overwrite h1 scratch after,
                  r1\<lparr>sampleAggregates := sampleAggregates r1 @ [a]\<rparr>)))"

definition BasicResampler_Resample ::
  "heap \<Rightarrow> BasicResampler \<Rightarrow> slice \<Rightarrow> fault \<times> heap \<times> BasicResampler + heap \<times> BasicResampler" where
  "BasicResampler_Resample h r values =
     (let len = int (slice_len values);
          (h0, scratch) = make_slice h (slice_len values)
      in case basic_rounds values scratch len [0..<nat (iterations r)] (h0, r) of
           Inl e \<Rightarrow> Inl e
         | Inr (h1, r1) \<Rightarrow> Inr (h1, r1\<lparr>sampleAggregates := Float64s (sampleAggregates r1)\<rparr>))"

definition BasicResampler_Quantile :: "BasicResampler \<Rightarrow> float64 \<Rightarrow> fault + float64" where
  "BasicResampler_Quantile r q = quantile (sampleAggregates r) q"

definition BasicResampler_Reset :: "BasicResampler \<Rightarrow> BasicResampler" where
  "BasicResampler_Reset r = r\<lparr>sampleAggregates := take 0 (sampleAggregates r)\<rparr>"

subsection \<open>PresampledResampler\<close>

record PresampledResampler = resampler +
  samples :: "int list list"

text \<open>
  The construction of one row: \<^verbatim>\<open>sampledInts[int(r.Int63()) % numValues]++\<close>, once
  for every position of \<^verbatim>\<open>range sampledInts\<close>.
\<close>

fun count_draws ::
  "int \<Rightarrow> nat list \<Rightarrow> int list \<times> source \<Rightarrow> fault + int list \<times> source" where
  "count_draws numValues [] st = Inr st"
| "count_draws numValues (p # rest) (sampledInts, src) =
     (let (x, src1) = Int63 src in
      if numValues = 0 then Inl IntegerDivideByZero
      else case elem_at sampledInts (uint x mod numValues) of
             Inl f \<Rightarrow> Inl f
           | Inr c \<Rightarrow>
               count_draws numValues rest
                 (sampledInts[nat (uint x mod numValues) := c + 1], src1))"

fun fill_samples ::
  "int \<Rightarrow> nat list \<Rightarrow> int list list \<times> source \<Rightarrow> fault + int list list \<times> source" where
  "fill_samples numValues [] st = Inr st"
| "fill_samples numValues (i # rest) (table, src) =
     (if numValues < 0 then Inl MakeSliceLenOutOfRange
      else case count_draws numValues [0..<nat numValues] (replicate (nat numValues) 0, src) of
             Inl f \<Rightarrow> Inl f
           | Inr (sampledInts, src1) \<Rightarrow>
               fill_samples numValues rest (table[i := sampledInts], src1))"

definition NewPresampledResampler ::
  "(int \<Rightarrow> source) \<Rightarrow> aggregator \<Rightarrow> int \<Rightarrow> int \<Rightarrow> fault + PresampledResampler" where
  "NewPresampledResampler NewSource a n numValues =
     (if n < 0 then Inl MakeSliceLenOutOfRange
      else case fill_samples numValues [0..<nat n] (replicate (nat n) [], NewSource 0) of
             Inl f \<Rightarrow> Inl f
           | Inr (table, src) \<Rightarrow>
               Inr \<lparr>aggregator = a, iterations = n, sampleAggregates = [], samples = table\<rparr>)"

text \<open>The inner loop of \<^verbatim>\<open>Resample\<close>: \<^verbatim>\<open>scratch[j] = values[j] * float64(r.samples[i][j])\<close>.\<close>

fun presampled_scale ::
  "slice \<Rightarrow> slice \<Rightarrow> int \<Rightarrow> nat list \<Rightarrow> heap \<times> PresampledResampler \<Rightarrow>
   fault \<times> heap \<times> PresampledResampler + heap \<times> PresampledResampler" where
  "presampled_scale values scratch i [] st = Inr st"
| "presampled_scale values scratch i (j # rest) (h, r) =
     (case load h values (int j) of
        Inl f \<Rightarrow> Inl (f, h, r)
      | Inr v \<Rightarrow>
          (case elem_at (samples r) i of
             Inl f \<Rightarrow> Inl (f, h, r)
           | Inr row \<Rightarrow>
               (case elem_at row (int j) of
                  Inl f \<Rightarrow> Inl (f, h, r)
                | Inr c \<Rightarrow>
                    (case store h scratch (int j) (fmul v (float64_of_int c)) of
                       Inl f \<Rightarrow> Inl (f, h, r)
                     | Inr h1 \<Rightarrow> presampled_scale values scratch i rest (h1, r)))))"

fun presampled_rounds ::
  "slice \<Rightarrow> slice \<Rightarrow> nat list \<Rightarrow> heap \<times> PresampledResampler \<Rightarrow>
   fault \<times> heap \<times> PresampledResampler + heap \<times> PresampledResampler" where
  "presampled_rounds values scratch [] st = Inr st"
| "presampled_rounds values scratch (i # rest) st =
     (case presampled_scale values scratch (int i) [0..<slice_len values] st of
        Inl e \<Rightarrow> Inl e
      | Inr (h1, r1) \<Rightarrow>
          (case Aggregate (aggregator r1) (contents h1 scratch) of
             (Inl f, after) \<Rightarrow> Inl (f, overwrite h1 scratch after, r1)
           | (Inr a, after) \<Rightarrow>
               presampled_rounds values scratch rest
                 (overwrite h1 scratch after,
                  r1\<lparr>sampleAggregates := sampleAggregates r1 @ [a]\<rparr>)))"

definition PresampledResampler_Resample ::
  "heap \<Rightarrow> PresampledResampler \<Rightarrow> slice \<Rightarrow>
   fault \<times> heap \<times> PresampledResampler + heap \<times> PresampledResampler" where
  "PresampledResampler_Resample h r values =
     (let (h0, scratch) = make_slice h (slice_len values)
      in case presampled_rounds values scratch [0..<nat (iterations r)] (h0, r) of
           Inl e \<Rightarrow> Inl e
         | Inr (h1, r1) \<Rightarrow> Inr (h1, r1\<lparr>sampleAggregates := Float64s (sampleAggregates r1)\<rparr>))"

definition PresampledResampler_Quantile :: "PresampledResampler \<Rightarrow> float64 \<Rightarrow> fault + float64" where
  "PresampledResampler_Quantile r q = quantile (sampleAggregates r) q"

definition PresampledResampler_Reset :: "PresampledResampler \<Rightarrow> PresampledResampler" where
  "PresampledResampler_Reset r = r\<lparr>sampleAggregates := take 0 (sampleAggregates r)\<rparr>"

subsection \<open>Outcomes\<close>

text \<open>The panic of an outcome, if any, and the state it leaves.\<close>

definition fault_of :: "fault \<times> 's + 's \<Rightarrow> fault option" where
  "fault_of x = (case x of Inl (f, s) \<Rightarrow> Some f | Inr s \<Rightarrow> None)"

definition state_of :: "fault \<times> 's + 's \<Rightarrow> 's" where
  "state_of x = (case x of Inl (f, s) \<Rightarrow> s | Inr s \<Rightarrow> s)"

definition heap_after :: "fault \<times> heap \<times> 'r + heap \<times> 'r \<Rightarrow> heap" where
  "heap_after x = fst (state_of x)"

definition resampler_after :: "fault \<times> heap \<times> 'r + heap \<times> 'r \<Rightarrow> 'r" where
  "resampler_after x = snd (state_of x)"

text \<open>A sequence of \<^verbatim>\<open>Resample\<close> calls on one resampler; a panic ends it.\<close>

fun BasicResampler_Resamples ::
  "heap \<Rightarrow> BasicResampler \<Rightarrow> slice list \<Rightarrow> fault \<times> heap \<times> BasicResampler + heap \<times> BasicResampler" where
  "BasicResampler_Resamples h r [] = Inr (h, r)"
| "BasicResampler_Resamples h r (values # rest) =
     (case BasicResampler_Resample h r values of
        Inl e \<Rightarrow> Inl e
      | Inr (h1, r1) \<Rightarrow> BasicResampler_Resamples h1 r1 rest)"

fun PresampledResampler_Resamples ::
  "heap \<Rightarrow> PresampledResampler \<Rightarrow> slice list \<Rightarrow>
   fault \<times> heap \<times> PresampledResampler + heap \<times> PresampledResampler" where
  "PresampledResampler_Resamples h r [] = Inr (h, r)"
| "PresampledResampler_Resamples h r (values # rest) =
     (case PresampledResampler_Resample h r values of
        Inl e \<Rightarrow> Inl e
      | Inr (h1, r1) \<Rightarrow> PresampledResampler_Resamples h1 r1 rest)"

text \<open>
  \<open>frame a h h'\<close>: the store \<open>h'\<close> has the arrays of \<open>h\<close>, all of them unchanged but
  the one at address \<open>a\<close>.
\<close>

definition frame :: "nat \<Rightarrow> heap \<Rightarrow> heap \<Rightarrow> bool" where
  "frame a h h' = (length h' = length h \<and> (\<forall>b. b \<noteq> a \<longrightarrow> h' ! b = h ! b))"

text \<open>Two slices, each in a store of its own, that hold the same input.\<close>

definition same_input :: "heap \<Rightarrow> heap \<Rightarrow> slice \<Rightarrow> slice \<Rightarrow> bool" where
  "same_input h1 h2 v1 v2 =
     (valid_slice h1 v1 \<and> valid_slice h2 v2 \<and> contents h1 v1 = contents h2 v2)"

subsection \<open>The resamplers as the specification describes them\<close>

text \<open>
  The specification describes \<^verbatim>\<open>Resample\<close> on the elements of \<^verbatim>\<open>values\<close>, without a
  store: each round builds a scratch sequence, aggregates it and appends the
  result; after the last round the collection is sorted. The descriptions below
  follow it, and take from the code what a round does when it panics.
\<close>

definition append_aggregate :: "'a resampler_scheme \<Rightarrow> float64 list \<Rightarrow> fault + 'a resampler_scheme" where
  "append_aggregate r scratch =
     (case fst (Aggregate (aggregator r) scratch) of
        Inl f \<Rightarrow> Inl f
      | Inr x \<Rightarrow> Inr (r\<lparr>sampleAggregates := sampleAggregates r @ [x]\<rparr>))"

definition sort_aggregates :: "'a resampler_scheme \<Rightarrow> 'a resampler_scheme" where
  "sort_aggregates r = r\<lparr>sampleAggregates := Float64s (sampleAggregates r)\<rparr>"

definition finish :: "fault option \<times> 'a resampler_scheme \<Rightarrow> fault option \<times> 'a resampler_scheme" where
  "finish x = (case x of (None, r) \<Rightarrow> (None, sort_aggregates r) | (Some f, r) \<Rightarrow> (Some f, r))"

text \<open>
  Direct resampling: position \<open>p\<close> of the scratch sequence is the value at a drawn
  index, one draw for each position.
\<close>

definition direct_scratch :: "float64 list \<Rightarrow> source \<Rightarrow> float64 list" where
  "direct_scratch vals src =
     map (\<lambda>p. vals ! nat (uint (src p) mod int (length vals))) [0..<length vals]"

definition advance :: "nat \<Rightarrow> BasicResampler \<Rightarrow> BasicResampler" where
  "advance n r = r\<lparr>r_source := (\<lambda>k. r_source r (k + n))\<rparr>"

fun direct_rounds :: "float64 list \<Rightarrow> nat list \<Rightarrow> BasicResampler \<Rightarrow> fault option \<times> BasicResampler" where
  "direct_rounds vals [] r = (None, r)"
| "direct_rounds vals (i # rest) r =
     (case append_aggregate (advance (length vals) r) (direct_scratch vals (r_source r)) of
        Inl f \<Rightarrow> (Some f, advance (length vals) r)
      | Inr r1 \<Rightarrow> direct_rounds vals rest r1)"

definition direct_resample :: "BasicResampler \<Rightarrow> float64 list \<Rightarrow> fault option \<times> BasicResampler" where
  "direct_resample r vals = finish (direct_rounds vals [0..<nat (iterations r)] r)"

text \<open>
  Presampled resampling: position \<open>j\<close> of the scratch sequence is
  \<open>values[j] \<times> counts[i][j]\<close>. With no position to fill, the table is not read; with more
  positions than the row has columns, the read of the first missing column panics.
\<close>

definition scaled :: "float64 list \<Rightarrow> int list \<Rightarrow> float64 list" where
  "scaled vals counts = map2 (\<lambda>v c. fmul v (float64_of_int c)) vals counts"

definition scaled_scratch :: "float64 list \<Rightarrow> int list list \<Rightarrow> int \<Rightarrow> fault + float64 list" where
  "scaled_scratch vals table i =
     (if vals = [] then Inr []
      else case elem_at table i of
             Inl f \<Rightarrow> Inl f
           | Inr counts \<Rightarrow>
               if length vals \<le> length counts then Inr (scaled vals counts)
               else Inl (IndexOutOfRange (int (length counts)) (length counts)))"

fun scaled_rounds ::
  "float64 list \<Rightarrow> nat list \<Rightarrow> PresampledResampler \<Rightarrow> fault option \<times> PresampledResampler" where
  "scaled_rounds vals [] r = (None, r)"
| "scaled_rounds vals (i # rest) r =
     (case scaled_scratch vals (samples r) (int i) of
        Inl f \<Rightarrow> (Some f, r)
      | Inr scratch \<Rightarrow>
          (case append_aggregate r scratch of
             Inl f \<Rightarrow> (Some f, r)
           | Inr r1 \<Rightarrow> scaled_rounds vals rest r1))"

definition presampled_resample ::
  "PresampledResampler \<Rightarrow> float64 list \<Rightarrow> fault option \<times> PresampledResampler" where
  "presampled_resample r vals = finish (scaled_rounds vals [0..<nat (iterations r)] r)"

text \<open>
  What the two resamplers share: given the scratch sequences of the rounds, aggregate
  each one and append the result, stopping at a panic of the aggregator.
\<close>

fun accumulate :: "'a resampler_scheme \<Rightarrow> float64 list list \<Rightarrow> fault option \<times> 'a resampler_scheme" where
  "accumulate r [] = (None, r)"
| "accumulate r (scratch # rest) =
     (case append_aggregate r scratch of
        Inl f \<Rightarrow> (Some f, r)
      | Inr r1 \<Rightarrow> accumulate r1 rest)"

text \<open>The scratch sequences of \<open>k\<close> rounds of direct resampling of \<open>vals\<close> from the source \<open>src\<close>.\<close>

definition direct_scratches :: "float64 list \<Rightarrow> source \<Rightarrow> nat \<Rightarrow> float64 list list" where
  "direct_scratches vals src k =
     map (\<lambda>i. direct_scratch vals (\<lambda>p. src (p + i * length vals))) [0..<k]"

text \<open>The value every aggregator of the package returns for the empty sequence.\<close>

definition empty_aggregate :: "aggregator \<Rightarrow> float64" where
  "empty_aggregate a = (case a of QuantileAggregator q \<Rightarrow> NaN | _ \<Rightarrow> Finite 0)"

text \<open>The count table of a resampler built for \<open>numValues\<close> values.\<close>

definition good_row :: "int \<Rightarrow> int list \<Rightarrow> bool" where
  "good_row numValues counts =
     (int (length counts) = numValues \<and> list_all (\<lambda>c. 0 \<le> c) counts \<and>
      sum_list counts = numValues)"

definition table_ok :: "int list list \<Rightarrow> int \<Rightarrow> int \<Rightarrow> bool" where
  "table_ok table n numValues =
     (int (length table) = n \<and> list_all (good_row numValues) table)"

subsection \<open>Inputs to run the package on\<close>

text \<open>
  A source that replays a list of draws, whatever the seed, for evaluating the
  package on concrete inputs; a store with one array; a slice of three of its
  elements; a count table as a resampler built for three values may hold.
\<close>

definition replay_source :: "63 word list \<Rightarrow> int \<Rightarrow> source" where
  "replay_source draws seed = (\<lambda>k. draws ! (k mod length draws))"

definition ex_source :: "int \<Rightarrow> source" where
  "ex_source = replay_source [5, 0, 7, 3, 1, 1, 8, 2, 6, 4, 9, 3]"

definition ex_heap :: heap where
  "ex_heap = [[Finite 7, Finite 3, Finite 1, Finite 2, Finite 9]]"

definition ex_values :: slice where
  "ex_values = \<lparr>slice_array = 0, slice_low = 1, slice_len = 3\<rparr>"

definition ex_presampled :: "aggregator \<Rightarrow> PresampledResampler" where
  "ex_presampled a =
     \<lparr>aggregator = a, iterations = 2, sampleAggregates = [], samples = [[1, 1, 1], [1, 2, 0]]\<rparr>"

section \<open>Properties\<close>

subsection \<open>Rounding and the index of a quantile\<close>

lemma round_even_of_int: "round_even (of_int z) = z"
  by (simp add: round_even_def)

lemma round_even_le: "x \<le> of_int N \<Longrightarrow> round_even x \<le> N"
  unfolding round_even_def Let_def
  by (auto simp: floor_le_iff le_floor_iff)

lemma round_even_ge: "of_int N \<le> x \<Longrightarrow> N \<le> round_even x"
proof -
  assume "of_int N \<le> x"
  then have "N \<le> \<lfloor>x\<rfloor>" by (simp add: le_floor_iff)
  then show ?thesis unfolding round_even_def Let_def by auto
qed

lemma ilog2_le: "0 < x \<Longrightarrow> x < 2 ^ 53 \<Longrightarrow> ilog2 x \<le> 52"
proof -
  assume x: "0 < x" "x < 2 ^ 53"
  show ?thesis
  proof (cases "1 \<le> x")
    case True
    have "\<lfloor>x\<rfloor> < 2 ^ 53" using x(2) by (simp add: floor_less_iff)
    then have "bitlen \<lfloor>x\<rfloor> \<le> 53" by (simp add: bitlen_le_iff_power)
    with True show ?thesis unfolding ilog2_def by simp
  next
    case False
    then show ?thesis unfolding ilog2_def using bitlen_nonneg[of "\<lceil>1 / x\<rceil> - 1"] by simp
  qed
qed

lemma round64_between:
  assumes lo: "of_int a \<le> x" and hi: "x \<le> of_int b"
    and small: "\<bar>x\<bar> < 2 ^ 53"
  shows "\<exists>y. round64 x = Finite y \<and> of_int a \<le> y \<and> y \<le> of_int b"
proof (cases "x = 0")
  case True
  with lo hi show ?thesis by (simp add: round64_def)
next
  case False
  define e where "e = max (ilog2 \<bar>x\<bar> - 52) (- 1074)"
  define n where "n = nat (- e)"
  define m where "m = round_even (x / pow2 e)"
  from False small have "ilog2 \<bar>x\<bar> \<le> 52" by (intro ilog2_le) auto
  then have e: "e \<le> 0" by (simp add: e_def)
  then have p: "pow2 e = 1 / 2 ^ n"
    by (cases "e = 0") (auto simp: pow2_def n_def)
  have "of_int (a * 2 ^ n) \<le> x / pow2 e"
    using lo by (simp add: p)
  then have m_lo: "a * 2 ^ n \<le> m" unfolding m_def by (rule round_even_ge)
  have "x / pow2 e \<le> of_int (b * 2 ^ n)"
    using hi by (simp add: p)
  then have m_hi: "m \<le> b * 2 ^ n" unfolding m_def by (rule round_even_le)
  have r: "round64 x = Finite (of_int m * pow2 e)"
    using False e by (simp add: round64_def Let_def e_def[symmetric] m_def[symmetric])
  have "(of_int (a * 2 ^ n) :: rat) \<le> of_int m" using m_lo by (simp only: of_int_le_iff)
  then have y_lo: "(of_int a :: rat) \<le> of_int m * pow2 e"
    by (simp add: p field_simps)
  have "(of_int m :: rat) \<le> of_int (b * 2 ^ n)" using m_hi by (simp only: of_int_le_iff)
  then have y_hi: "of_int m * pow2 e \<le> (of_int b :: rat)"
    by (simp add: p field_simps)
  from r y_lo y_hi show ?thesis by blast
qed

lemma float64_of_int_exact: "\<bar>k\<bar> < 2 ^ 53 \<Longrightarrow> float64_of_int k = Finite (of_int k)"
proof -
  assume k: "\<bar>k\<bar> < 2 ^ 53"
  then have "\<bar>of_int k :: rat\<bar> < 2 ^ 53"
    by (metis of_int_abs of_int_less_numeral_power_cancel_iff)
  from round64_between[OF order_refl order_refl this]
  show ?thesis unfolding float64_of_int_def by auto
qed

lemma fmul_Finite: "fmul (Finite a) (Finite b) = round64 (a * b)"
  by (simp add: fmul_def is_inf_def is_zero_def)


lemma pow_53_63: "(2::int) ^ 53 < 2 ^ 63"
  by simp

lemma int_of_float64_nonneg:
  "0 \<le> a \<Longrightarrow> \<lfloor>a\<rfloor> < 2 ^ 63 \<Longrightarrow> int_of_float64 (Finite a) = Some \<lfloor>a\<rfloor>"
  by (simp add: int_of_float64_def)

lemma int_of_float64_neg:
  "a < 0 \<Longrightarrow> - (2 ^ 63) \<le> \<lceil>a\<rceil> \<Longrightarrow> int_of_float64 (Finite a) = Some \<lceil>a\<rceil>"
  by (simp add: int_of_float64_def)

lemma quantile_product:
  assumes "vals \<noteq> []" and "int (length vals) \<le> 2 ^ 53"
  shows "fmul (Finite x) (float64_of_int (int (length vals) - 1)) =
         round64 (x * of_int (int (length vals) - 1))"
proof -
  from assms have "\<bar>int (length vals) - 1\<bar> < 2 ^ 53" by (cases vals) auto
  then show ?thesis by (simp only: float64_of_int_exact fmul_Finite)
qed

lemma quantile_nonempty:
  "vals \<noteq> [] \<Longrightarrow>
   quantile vals q =
     (case int_of_float64 (fmul q (float64_of_int (int (length vals) - 1))) of
        None \<Rightarrow> Inl ConversionUnspecified | Some i \<Rightarrow> elem_at vals i)"
  by (simp add: quantile_def)

lemma quantile_in_range:
  assumes ne: "vals \<noteq> []" and len: "int (length vals) \<le> 2 ^ 53"
    and q: "0 \<le> x" "x \<le> 1"
  shows "\<exists>y. fmul (Finite x) (float64_of_int (int (length vals) - 1)) = Finite y \<and> 0 \<le> y \<and>
           nat \<lfloor>y\<rfloor> < length vals \<and> quantile vals (Finite x) = Inr (vals ! nat \<lfloor>y\<rfloor>)"
proof -
  define k where "k = int (length vals) - 1"
  from ne have k0: "0 \<le> k" by (cases vals) (auto simp: k_def)
  from len have k53: "k < 2 ^ 53" by (simp add: k_def)
  have lo: "of_int 0 \<le> x * of_int k" using q k0 by simp
  have hi: "x * of_int k \<le> of_int k" using q k0 by (simp add: mult_left_le_one_le mult.commute)
  have "\<bar>x * of_int k\<bar> \<le> of_int k" using lo hi by simp
  also have "(of_int k :: rat) < 2 ^ 53" using k53 by (metis of_int_less_numeral_power_cancel_iff)
  finally have small: "\<bar>x * of_int k\<bar> < 2 ^ 53" .
  from round64_between[OF lo hi small] obtain y
    where y: "round64 (x * of_int k) = Finite y" "0 \<le> y" "y \<le> of_int k" by auto
  have p: "fmul (Finite x) (float64_of_int (int (length vals) - 1)) = Finite y"
    using quantile_product[OF ne len, of x] y(1) by (simp add: k_def)
  have f0: "0 \<le> \<lfloor>y\<rfloor>" using y(2) by simp
  have fk: "\<lfloor>y\<rfloor> \<le> k" using y(3) by (simp add: floor_le_iff)
  have "\<lfloor>y\<rfloor> < 2 ^ 63" using fk k53 pow_53_63 by linarith
  with y(2) have conv: "int_of_float64 (Finite y) = Some \<lfloor>y\<rfloor>"
    by (rule int_of_float64_nonneg)
  have idx: "nat \<lfloor>y\<rfloor> < length vals" using f0 fk unfolding k_def by linarith
  have "\<lfloor>y\<rfloor> < int (length vals)" using fk unfolding k_def by linarith
  with f0 have "quantile vals (Finite x) = Inr (vals ! nat \<lfloor>y\<rfloor>)"
    by (simp only: quantile_nonempty[OF ne] p conv elem_at_def option.case simp_thms if_True)
  with p y(2) idx show ?thesis by blast
qed

lemma quantile_above:
  assumes ne: "vals \<noteq> []" and len: "int (length vals) \<le> 2 ^ 53"
    and lo: "of_int (int (length vals)) \<le> x * of_int (int (length vals) - 1)"
    and hi: "x * of_int (int (length vals) - 1) \<le> 2 ^ 53 - 1"
  shows "\<exists>i. int_of_float64 (fmul (Finite x) (float64_of_int (int (length vals) - 1))) = Some i \<and>
           int (length vals) \<le> i \<and>
           quantile vals (Finite x) = Inl (IndexOutOfRange i (length vals))"
proof -
  define z where "z = x * of_int (int (length vals) - 1)"
  have hi': "z \<le> of_int (2 ^ 53 - 1)" using hi by (simp add: z_def)
  have z0: "0 \<le> z" using lo by (simp add: z_def)
  then have small: "\<bar>z\<bar> < 2 ^ 53" using hi by (simp add: z_def)
  from round64_between[OF lo[folded z_def] hi' small] obtain y
    where y: "round64 z = Finite y" "of_int (int (length vals)) \<le> y" "y \<le> of_int (2 ^ 53 - 1)"
    by auto
  have p: "fmul (Finite x) (float64_of_int (int (length vals) - 1)) = Finite y"
    using quantile_product[OF ne len, of x] y(1) by (simp add: z_def)
  have y0: "0 \<le> y" using y(2) by (meson of_int_0_le_iff of_nat_0_le_iff order_trans)
  have f1: "int (length vals) \<le> \<lfloor>y\<rfloor>" using y(2) by (simp add: le_floor_iff)
  have f2: "\<lfloor>y\<rfloor> \<le> 2 ^ 53 - 1" using y(3) by (simp add: floor_le_iff)
  have "\<lfloor>y\<rfloor> < 2 ^ 63" using f2 pow_53_63 by linarith
  with y0 have conv: "int_of_float64 (Finite y) = Some \<lfloor>y\<rfloor>"
    by (rule int_of_float64_nonneg)
  have "\<not> \<lfloor>y\<rfloor> < int (length vals)" using f1 by linarith
  then have "quantile vals (Finite x) = Inl (IndexOutOfRange \<lfloor>y\<rfloor> (length vals))"
    by (simp only: quantile_nonempty[OF ne] p conv elem_at_def option.case simp_thms if_False)
  moreover note f1 conv[folded p]
  ultimately show ?thesis by blast
qed

lemma quantile_below:
  assumes ne: "vals \<noteq> []" and len: "int (length vals) \<le> 2 ^ 53"
    and hi: "x * of_int (int (length vals) - 1) \<le> - 1"
    and lo: "- (2 ^ 53 - 1) \<le> x * of_int (int (length vals) - 1)"
  shows "\<exists>i. int_of_float64 (fmul (Finite x) (float64_of_int (int (length vals) - 1))) = Some i \<and>
           i < 0 \<and> quantile vals (Finite x) = Inl (IndexOutOfRange i (length vals))"
proof -
  define z where "z = x * of_int (int (length vals) - 1)"
  have hi': "z \<le> of_int (- 1)" using hi by (simp add: z_def)
  have lo': "of_int (- (2 ^ 53 - 1)) \<le> z" using lo by (simp add: z_def)
  have small: "\<bar>z\<bar> < 2 ^ 53" using hi lo by (simp add: z_def)
  from round64_between[OF lo' hi' small] obtain y
    where y: "round64 z = Finite y" "of_int (- (2 ^ 53 - 1)) \<le> y" "y \<le> of_int (- 1)"
    by auto
  have p: "fmul (Finite x) (float64_of_int (int (length vals) - 1)) = Finite y"
    using quantile_product[OF ne len, of x] y(1) by (simp add: z_def)
  have y0: "y < 0" using y(3) by simp
  have f1: "\<lceil>y\<rceil> \<le> - 1" using y(3) by (simp add: ceiling_le_iff)
  have f2: "- (2 ^ 53 - 1) \<le> \<lceil>y\<rceil>" using y(2) by (simp add: le_ceiling_iff)
  have "- (2 ^ 63) \<le> \<lceil>y\<rceil>" using f2 pow_53_63 by linarith
  with y0 have conv: "int_of_float64 (Finite y) = Some \<lceil>y\<rceil>"
    by (rule int_of_float64_neg)
  have "\<not> 0 \<le> \<lceil>y\<rceil>" using f1 by linarith
  then have "quantile vals (Finite x) = Inl (IndexOutOfRange \<lceil>y\<rceil> (length vals))"
    by (simp only: quantile_nonempty[OF ne] p conv elem_at_def option.case simp_thms if_False)
  moreover have "\<lceil>y\<rceil> < 0" using f1 by linarith
  moreover note conv[folded p]
  ultimately show ?thesis by blast
qed

text \<open>
  C4. For every sequence \<open>vals\<close> and every probability \<open>q\<close> in \<open>[0, 1]\<close>, the shared
  helper returns NaN when \<open>vals\<close> is empty and otherwise returns
  \<open>vals[floor(q \<times> (n - 1))]\<close>, \<open>n\<close> the length of \<open>vals\<close>, without a panic; the
  Quantile method of both resamplers and the quantile aggregator (after its sort)
  read at the same index. The product \<open>q \<times> (n - 1)\<close> is the \<^verbatim>\<open>float64\<close> product of
  the code, \<open>y\<close> below. A Go slice of \<^verbatim>\<open>float64\<close> has far fewer than \<open>2 ^ 53\<close> elements.
\<close>

theorem quantile_index_formula:
  assumes "int (length vals) \<le> 2 ^ 53" and "0 \<le> x" and "x \<le> 1"
  shows "if vals = [] then quantile vals (Finite x) = Inr NaN
         else \<exists>y. fmul (Finite x) (float64_of_int (int (length vals) - 1)) = Finite y \<and>
                0 \<le> y \<and> nat \<lfloor>y\<rfloor> < length vals \<and>
                quantile vals (Finite x) = Inr (vals ! nat \<lfloor>y\<rfloor>) \<and>
                BasicResampler_Quantile (b\<lparr>sampleAggregates := vals\<rparr>) (Finite x) =
                  Inr (vals ! nat \<lfloor>y\<rfloor>) \<and>
                PresampledResampler_Quantile (p\<lparr>sampleAggregates := vals\<rparr>) (Finite x) =
                  Inr (vals ! nat \<lfloor>y\<rfloor>) \<and>
                Aggregate (QuantileAggregator (Finite x)) vals =
                  (Inr (Float64s vals ! nat \<lfloor>y\<rfloor>), Float64s vals)"
proof (cases "vals = []")
  case True
  then show ?thesis by (simp add: quantile_def)
next
  case False
  from quantile_in_range[OF False assms] obtain y
    where y: "fmul (Finite x) (float64_of_int (int (length vals) - 1)) = Finite y" "0 \<le> y"
      "nat \<lfloor>y\<rfloor> < length vals" "quantile vals (Finite x) = Inr (vals ! nat \<lfloor>y\<rfloor>)"
    by blast
  have sorted_len: "length (Float64s vals) = length vals"
    by (simp add: Float64s_def)
  with False have sorted_ne: "Float64s vals \<noteq> []"
    by (metis length_0_conv)
  from quantile_in_range[OF sorted_ne _ assms(2,3)] assms(1) y(1)
  have "quantile (Float64s vals) (Finite x) = Inr (Float64s vals ! nat \<lfloor>y\<rfloor>)"
    by (auto simp: sorted_len)
  with y False show ?thesis
    by (simp add: BasicResampler_Quantile_def PresampledResampler_Quantile_def)
qed

theorem quantile_index_formula_witness:
  "int (length [Finite 10, Finite 20, Finite 30]) \<le> 2 ^ 53 \<and> (0 :: rat) \<le> 1 / 2 \<and>
   (1 / 2 :: rat) \<le> 1 \<and>
   quantile [Finite 10, Finite 20, Finite 30] (Finite (1 / 2)) = Inr (Finite 20)"
proof -
  have h: "int (length [Finite 10, Finite 20, Finite 30]) \<le> 2 ^ 53" "(0 :: rat) \<le> 1 / 2"
    "(1 / 2 :: rat) \<le> 1"
    by simp_all
  have p: "fmul (Finite (1 / 2)) (float64_of_int 2) = Finite 1" by code_simp
  from quantile_index_formula[OF h] p
  have "quantile [Finite 10, Finite 20, Finite 30] (Finite (1 / 2)) = Inr (Finite 20)"
    by auto
  with h show ?thesis by simp
qed

text \<open>
  C3, as the code has it. No quantile lookup validates or clamps \<open>q\<close>: the helper and
  the Quantile method of both resamplers convert \<open>q \<times> float64(n - 1)\<close> to
  the index as it is. Whenever the exact product \<open>z\<close> is at least \<open>n\<close>, or at most
  \<open>- 1\<close> (and below \<open>2 ^ 53\<close> in magnitude, so that the conversion is defined), the
  index lies outside the collection and the read panics.
\<close>

theorem quantile_unvalidated:
  assumes "vals \<noteq> []" and "int (length vals) \<le> 2 ^ 53"
    and "z = x * of_int (int (length vals) - 1)"
    and "(of_int (int (length vals)) \<le> z \<and> z \<le> 2 ^ 53 - 1) \<or> (- (2 ^ 53 - 1) \<le> z \<and> z \<le> - 1)"
  shows "\<exists>i. int_of_float64 (fmul (Finite x) (float64_of_int (int (length vals) - 1))) = Some i \<and>
           (i < 0 \<or> int (length vals) \<le> i) \<and>
           quantile vals (Finite x) = Inl (IndexOutOfRange i (length vals)) \<and>
           BasicResampler_Quantile (b\<lparr>sampleAggregates := vals\<rparr>) (Finite x) =
             Inl (IndexOutOfRange i (length vals)) \<and>
           PresampledResampler_Quantile (p\<lparr>sampleAggregates := vals\<rparr>) (Finite x) =
             Inl (IndexOutOfRange i (length vals))"
proof -
  from assms(4) show ?thesis
  proof
    assume "of_int (int (length vals)) \<le> z \<and> z \<le> 2 ^ 53 - 1"
    with quantile_above[OF assms(1,2), of x] assms(3) show ?thesis
      by (auto simp: BasicResampler_Quantile_def PresampledResampler_Quantile_def)
  next
    assume "- (2 ^ 53 - 1) \<le> z \<and> z \<le> - 1"
    with quantile_below[OF assms(1,2), of x] assms(3) show ?thesis
      by (auto simp: BasicResampler_Quantile_def PresampledResampler_Quantile_def)
  qed
qed

theorem quantile_unvalidated_witness:
  "[Finite 10, Finite 20, Finite 30] \<noteq> [] \<and> int (length [Finite 10, Finite 20, Finite 30]) \<le> 2 ^ 53 \<and>
   (4 :: rat) = 2 * of_int (int (length [Finite 10, Finite 20, Finite 30]) - 1) \<and>
   of_int (int (length [Finite 10, Finite 20, Finite 30])) \<le> (4 :: rat) \<and> (4 :: rat) \<le> 2 ^ 53 - 1 \<and>
   (\<exists>i. quantile [Finite 10, Finite 20, Finite 30] (Finite 2) = Inl (IndexOutOfRange i 3))"
proof -
  have h: "[Finite 10, Finite 20, Finite 30] \<noteq> []"
    "int (length [Finite 10, Finite 20, Finite 30]) \<le> 2 ^ 53"
    "(4 :: rat) = 2 * of_int (int (length [Finite 10, Finite 20, Finite 30]) - 1)"
    by simp_all
  have g: "of_int (int (length [Finite 10, Finite 20, Finite 30])) \<le> (4 :: rat)" "(4 :: rat) \<le> 2 ^ 53 - 1"
    by simp_all
  then have d: "(of_int (int (length [Finite 10, Finite 20, Finite 30])) \<le> (4 :: rat) \<and> (4 :: rat) \<le> 2 ^ 53 - 1) \<or>
      (- (2 ^ 53 - 1) \<le> (4 :: rat) \<and> (4 :: rat) \<le> - 1)"
    by blast
  from quantile_unvalidated[OF h d,
      of "NewBasicResampler ex_source SumAggregator 0"
         "\<lparr>aggregator = SumAggregator, iterations = 0, sampleAggregates = [], samples = []\<rparr>"]
  obtain i where "quantile [Finite 10, Finite 20, Finite 30] (Finite 2) =
      Inl (IndexOutOfRange i (length [Finite 10, Finite 20, Finite 30]))"
    by blast
  then have "\<exists>i. quantile [Finite 10, Finite 20, Finite 30] (Finite 2) = Inl (IndexOutOfRange i 3)"
    by auto
  with h g show ?thesis by blast
qed

text \<open>
  The claim C3 as the specification states it fails: with \<open>q = 2\<close> and three samples
  the lookups read at index 4 and panic; a clamped lookup would return 30.
\<close>

theorem quantile_unvalidated_counterexample:
  "quantile [Finite 10, Finite 20, Finite 30] (Finite 2) = Inl (IndexOutOfRange 4 3) \<and>
   BasicResampler_Quantile
     (NewBasicResampler ex_source SumAggregator 3\<lparr>sampleAggregates := [Finite 10, Finite 20, Finite 30]\<rparr>)
     (Finite 2) = Inl (IndexOutOfRange 4 3)"
  by code_simp

subsection \<open>The store and the frame of a call\<close>

lemma frame_refl: "frame a h h"
  by (simp add: frame_def)

lemma frame_trans: "frame a h h1 \<Longrightarrow> frame a h1 h2 \<Longrightarrow> frame a h h2"
  by (simp add: frame_def)

lemma frame_store: "store h s i v = Inr h1 \<Longrightarrow> frame (slice_array s) h h1"
  by (auto simp: store_def frame_def split: if_splits)

lemma frame_overwrite: "frame (slice_array s) h (overwrite h s new)"
  by (simp add: overwrite_def frame_def Let_def)

lemma heap_after_simps:
  "heap_after (Inr (h, r)) = h" "heap_after (Inl (f, h, r)) = h"
  "resampler_after (Inr (h, r)) = r" "resampler_after (Inl (f, h, r)) = r"
  "fault_of (Inr s) = None" "fault_of (Inl (f, s)) = Some f"
  by (simp_all add: heap_after_def resampler_after_def state_of_def fault_of_def)

lemma basic_draw_frame:
  "frame (slice_array scratch) h (heap_after (basic_draw values scratch len ps (h, r)))"
proof (induction ps arbitrary: h r)
  case Nil
  show ?case by (simp add: heap_after_simps frame_refl)
next
  case (Cons i ps)
  show ?case
    by (auto simp: Int63_def Let_def heap_after_simps frame_refl split: sum.splits
        intro: frame_trans[OF frame_store Cons.IH])
qed

lemma basic_draw_fields:
  "aggregator (resampler_after (basic_draw values scratch len ps (h, r))) = aggregator r \<and>
   iterations (resampler_after (basic_draw values scratch len ps (h, r))) = iterations r \<and>
   sampleAggregates (resampler_after (basic_draw values scratch len ps (h, r))) = sampleAggregates r"
proof (induction ps arbitrary: h r)
  case Nil
  show ?case by (simp add: heap_after_simps)
next
  case (Cons i ps)
  show ?case
    by (auto simp: Int63_def Let_def heap_after_simps Cons.IH split: sum.splits)
qed


lemma basic_draw_Inr:
  assumes "basic_draw values scratch len ps (h, r) = Inr (h1, r1)"
  shows "frame (slice_array scratch) h h1" "aggregator r1 = aggregator r"
    "iterations r1 = iterations r" "sampleAggregates r1 = sampleAggregates r"
  using basic_draw_frame[of scratch h "values" len ps r]
    basic_draw_fields[of "values" scratch len ps h r] assms
  by (simp_all add: heap_after_simps)

lemma basic_draw_Inl:
  assumes "basic_draw values scratch len ps (h, r) = Inl (f, h1, r1)"
  shows "frame (slice_array scratch) h h1" "aggregator r1 = aggregator r"
    "iterations r1 = iterations r" "sampleAggregates r1 = sampleAggregates r"
  using basic_draw_frame[of scratch h "values" len ps r]
    basic_draw_fields[of "values" scratch len ps h r] assms
  by (simp_all add: heap_after_simps)

lemma basic_rounds_frame:
  "frame (slice_array scratch) h (heap_after (basic_rounds values scratch len rounds (h, r)))"
proof (induction rounds arbitrary: h r)
  case Nil
  show ?case by (simp add: heap_after_simps frame_refl)
next
  case (Cons i rounds)
  show ?case
  proof (cases "basic_draw values scratch len [0..<slice_len values] (h, r)")
    case (Inl e)
    then obtain f h1 r1 where e: "e = (f, h1, r1)" by (cases e) auto
    with Inl basic_draw_Inl(1)[of "values" scratch len _ h r f h1 r1] show ?thesis
      by (simp add: heap_after_simps)
  next
    case (Inr st)
    then obtain h1 r1 where st: "st = (h1, r1)" by (cases st) auto
    from Inr st have f1: "frame (slice_array scratch) h h1" by (auto dest: basic_draw_Inr(1))
    have f2: "frame (slice_array scratch) h1 (overwrite h1 scratch new)" for new
      by (rule frame_overwrite)
    show ?thesis
      using Inr st frame_trans[OF f1 f2] frame_trans[OF frame_trans[OF f1 f2] Cons.IH]
      by (auto simp: heap_after_simps split: prod.splits sum.splits)
  qed
qed

lemma basic_rounds_fields:
  "aggregator (resampler_after (basic_rounds values scratch len rounds (h, r))) = aggregator r \<and>
   iterations (resampler_after (basic_rounds values scratch len rounds (h, r))) = iterations r \<and>
   (\<exists>new. sampleAggregates (resampler_after (basic_rounds values scratch len rounds (h, r))) =
       sampleAggregates r @ new \<and>
     (case fault_of (basic_rounds values scratch len rounds (h, r)) of
        None \<Rightarrow> length new = length rounds | Some f \<Rightarrow> length new < length rounds))"
proof (induction rounds arbitrary: h r)
  case Nil
  show ?case by (simp add: heap_after_simps)
next
  case (Cons i rounds)
  show ?case
  proof (cases "basic_draw values scratch len [0..<slice_len values] (h, r)")
    case (Inl e)
    then obtain f h1 r1 where e: "e = (f, h1, r1)" by (cases e) auto
    with Inl basic_draw_Inl(2-4)[of "values" scratch len _ h r f h1 r1] show ?thesis
      by (simp add: heap_after_simps)
  next
    case (Inr st)
    then obtain h1 r1 where st: "st = (h1, r1)" by (cases st) auto
    from Inr st have r1: "aggregator r1 = aggregator r" "iterations r1 = iterations r"
      "sampleAggregates r1 = sampleAggregates r"
      by (auto dest: basic_draw_Inr(2-4))
    obtain res after where ag: "Aggregate (aggregator r1) (contents h1 scratch) = (res, after)"
      by (cases "Aggregate (aggregator r1) (contents h1 scratch)") auto
    show ?thesis
    proof (cases res)
      case (Inl f)
      with Inr st ag r1 show ?thesis by (simp add: heap_after_simps)
    next
      case (Inr a)
      let ?r2 = "r1\<lparr>sampleAggregates := sampleAggregates r1 @ [a]\<rparr>"
      from Cons.IH[of "overwrite h1 scratch after" ?r2] obtain new where
        new: "aggregator (resampler_after (basic_rounds values scratch len rounds (overwrite h1 scratch after, ?r2))) = aggregator r"
          "iterations (resampler_after (basic_rounds values scratch len rounds (overwrite h1 scratch after, ?r2))) = iterations r"
          "sampleAggregates (resampler_after (basic_rounds values scratch len rounds (overwrite h1 scratch after, ?r2))) = sampleAggregates r @ [a] @ new"
          "case fault_of (basic_rounds values scratch len rounds (overwrite h1 scratch after, ?r2)) of
             None \<Rightarrow> length new = length rounds | Some f \<Rightarrow> length new < length rounds"
        using r1 by auto
      have eq: "basic_rounds values scratch len (i # rounds) (h, r) =
          basic_rounds values scratch len rounds (overwrite h1 scratch after, ?r2)"
        using \<open>basic_draw values scratch len [0..<slice_len values] (h, r) = Inr st\<close> st ag Inr
        by simp
      show ?thesis
        unfolding eq using new
        by (intro conjI exI[of _ "[a] @ new"]) (auto split: option.splits)
    qed
  qed
qed


lemma presampled_scale_frame:
  "frame (slice_array scratch) h (heap_after (presampled_scale values scratch i ps (h, r))) \<and>
   resampler_after (presampled_scale values scratch i ps (h, r)) = r"
proof (induction ps arbitrary: h)
  case Nil
  show ?case by (simp add: heap_after_simps frame_refl)
next
  case (Cons j ps)
  show ?case
    by (auto simp: heap_after_simps frame_refl Cons.IH split: sum.splits
        intro: frame_trans[OF frame_store conjunct1[OF Cons.IH]])
qed

lemma presampled_scale_Inr:
  assumes "presampled_scale values scratch i ps (h, r) = Inr (h1, r1)"
  shows "frame (slice_array scratch) h h1" "r1 = r"
  using presampled_scale_frame[of scratch h "values" i ps r] assms
  by (simp_all add: heap_after_simps)

lemma presampled_scale_Inl:
  assumes "presampled_scale values scratch i ps (h, r) = Inl (f, h1, r1)"
  shows "frame (slice_array scratch) h h1" "r1 = r"
  using presampled_scale_frame[of scratch h "values" i ps r] assms
  by (simp_all add: heap_after_simps)

lemma presampled_rounds_frame:
  "frame (slice_array scratch) h (heap_after (presampled_rounds values scratch rounds (h, r)))"
proof (induction rounds arbitrary: h r)
  case Nil
  show ?case by (simp add: heap_after_simps frame_refl)
next
  case (Cons i rounds)
  show ?case
  proof (cases "presampled_scale values scratch (int i) [0..<slice_len values] (h, r)")
    case (Inl e)
    then obtain f h1 r1 where e: "e = (f, h1, r1)" by (cases e) auto
    with Inl presampled_scale_Inl(1)[of "values" scratch _ _ h r f h1 r1] show ?thesis
      by (simp add: heap_after_simps)
  next
    case (Inr st)
    then obtain h1 r1 where st: "st = (h1, r1)" by (cases st) auto
    from Inr st have f1: "frame (slice_array scratch) h h1" by (auto dest: presampled_scale_Inr(1))
    have f2: "frame (slice_array scratch) h1 (overwrite h1 scratch new)" for new
      by (rule frame_overwrite)
    show ?thesis
      using Inr st frame_trans[OF f1 f2] frame_trans[OF frame_trans[OF f1 f2] Cons.IH]
      by (auto simp: heap_after_simps split: prod.splits sum.splits)
  qed
qed

lemma presampled_rounds_fields:
  "aggregator (resampler_after (presampled_rounds values scratch rounds (h, r))) = aggregator r \<and>
   iterations (resampler_after (presampled_rounds values scratch rounds (h, r))) = iterations r \<and>
   samples (resampler_after (presampled_rounds values scratch rounds (h, r))) = samples r \<and>
   (\<exists>new. sampleAggregates (resampler_after (presampled_rounds values scratch rounds (h, r))) =
       sampleAggregates r @ new \<and>
     (case fault_of (presampled_rounds values scratch rounds (h, r)) of
        None \<Rightarrow> length new = length rounds | Some f \<Rightarrow> length new < length rounds))"
proof (induction rounds arbitrary: h r)
  case Nil
  show ?case by (simp add: heap_after_simps)
next
  case (Cons i rounds)
  show ?case
  proof (cases "presampled_scale values scratch (int i) [0..<slice_len values] (h, r)")
    case (Inl e)
    then obtain f h1 r1 where e: "e = (f, h1, r1)" by (cases e) auto
    with Inl have "r1 = r" by (auto dest: presampled_scale_Inl(2))
    with Inl e show ?thesis
      by (simp add: heap_after_simps)
  next
    case (Inr st)
    then obtain h1 r1 where st: "st = (h1, r1)" by (cases st) auto
    from Inr st have r1: "r1 = r"
      by (auto dest: presampled_scale_Inr(2))
    obtain res after where ag: "Aggregate (aggregator r) (contents h1 scratch) = (res, after)"
      by (cases "Aggregate (aggregator r) (contents h1 scratch)") auto
    show ?thesis
    proof (cases res)
      case (Inl f)
      with Inr st ag r1 show ?thesis by (simp add: heap_after_simps)
    next
      case (Inr a)
      let ?r2 = "r\<lparr>sampleAggregates := sampleAggregates r @ [a]\<rparr>"
      from Cons.IH[of "overwrite h1 scratch after" ?r2] obtain new where
        new: "aggregator (resampler_after (presampled_rounds values scratch rounds (overwrite h1 scratch after, ?r2))) = aggregator r"
          "iterations (resampler_after (presampled_rounds values scratch rounds (overwrite h1 scratch after, ?r2))) = iterations r"
          "samples (resampler_after (presampled_rounds values scratch rounds (overwrite h1 scratch after, ?r2))) = samples r"
          "sampleAggregates (resampler_after (presampled_rounds values scratch rounds (overwrite h1 scratch after, ?r2))) = sampleAggregates r @ [a] @ new"
          "case fault_of (presampled_rounds values scratch rounds (overwrite h1 scratch after, ?r2)) of
             None \<Rightarrow> length new = length rounds | Some f \<Rightarrow> length new < length rounds"
        by auto
      have eq: "presampled_rounds values scratch (i # rounds) (h, r) =
          presampled_rounds values scratch rounds (overwrite h1 scratch after, ?r2)"
        using \<open>presampled_scale values scratch (int i) [0..<slice_len values] (h, r) = Inr st\<close> st ag Inr r1
        by simp
      show ?thesis
        unfolding eq using new
        by (intro conjI exI[of _ "[a] @ new"]) (auto split: option.splits)
    qed
  qed
qed

lemma frame_take: "frame (length h) (h @ [z]) h' \<Longrightarrow> take (length h) h' = h"
  by (auto simp: frame_def list_eq_iff_nth_eq nth_append)

lemma BasicResampler_Resample_heap:
  "take (length h) (heap_after (BasicResampler_Resample h r values)) = h"
proof -
  let ?sc = "\<lparr>slice_array = length h, slice_low = 0, slice_len = slice_len values\<rparr>"
  let ?h0 = "h @ [replicate (slice_len values) (Finite 0)]"
  let ?out = "basic_rounds values ?sc (int (slice_len values)) [0..<nat (iterations r)] (?h0, r)"
  have "frame (length h) ?h0 (heap_after ?out)"
    using basic_rounds_frame[of ?sc ?h0] by simp
  then have "take (length h) (heap_after ?out) = h" by (rule frame_take)
  moreover have "heap_after (BasicResampler_Resample h r values) = heap_after ?out"
    by (auto simp: BasicResampler_Resample_def make_slice_def heap_after_simps Let_def
        split: sum.splits)
  ultimately show ?thesis by simp
qed

lemma PresampledResampler_Resample_heap:
  "take (length h) (heap_after (PresampledResampler_Resample h r values)) = h"
proof -
  let ?sc = "\<lparr>slice_array = length h, slice_low = 0, slice_len = slice_len values\<rparr>"
  let ?h0 = "h @ [replicate (slice_len values) (Finite 0)]"
  let ?out = "presampled_rounds values ?sc [0..<nat (iterations r)] (?h0, r)"
  have "frame (length h) ?h0 (heap_after ?out)"
    using presampled_rounds_frame[of ?sc ?h0] by simp
  then have "take (length h) (heap_after ?out) = h" by (rule frame_take)
  moreover have "heap_after (PresampledResampler_Resample h r values) = heap_after ?out"
    by (auto simp: PresampledResampler_Resample_def make_slice_def heap_after_simps Let_def
        split: sum.splits)
  ultimately show ?thesis by simp
qed

lemma contents_take:
  "valid_slice h s \<Longrightarrow> take (length h) h' = h \<Longrightarrow> contents h' s = contents h s \<and> valid_slice h' s"
proof -
  assume v: "valid_slice h s" and t: "take (length h) h' = h"
  from v have a: "slice_array s < length h" by (simp add: valid_slice_def)
  have "length (take (length h) h') \<le> length h'" by simp
  with t have "length h \<le> length h'" by simp
  moreover from a t have "h' ! slice_array s = h ! slice_array s" by (metis nth_take)
  ultimately show ?thesis using v a by (simp add: contents_def valid_slice_def)
qed

lemma Float64s_length: "length (Float64s a) = length a"
  by (simp add: Float64s_def)

lemma Float64s_mset: "mset (Float64s a) = mset a"
  by (simp add: Float64s_def)

lemma Float64s_ascending: "ascending (Float64s a)"
  by (simp add: Float64s_def ascending_def)

lemma BasicResampler_Resample_fields:
  "aggregator (resampler_after (BasicResampler_Resample h r values)) = aggregator r \<and>
   iterations (resampler_after (BasicResampler_Resample h r values)) = iterations r \<and>
   (\<exists>new. case fault_of (BasicResampler_Resample h r values) of
      None \<Rightarrow> length new = nat (iterations r) \<and>
        sampleAggregates (resampler_after (BasicResampler_Resample h r values)) =
          Float64s (sampleAggregates r @ new)
    | Some f \<Rightarrow> length new < nat (iterations r) \<and>
        sampleAggregates (resampler_after (BasicResampler_Resample h r values)) =
          sampleAggregates r @ new)"
proof -
  let ?sc = "\<lparr>slice_array = length h, slice_low = 0, slice_len = slice_len values\<rparr>"
  let ?h0 = "h @ [replicate (slice_len values) (Finite 0)]"
  let ?out = "basic_rounds values ?sc (int (slice_len values)) [0..<nat (iterations r)] (?h0, r)"
  from basic_rounds_fields[of "values" ?sc "int (slice_len values)" "[0..<nat (iterations r)]" ?h0 r]
  obtain new where new: "aggregator (resampler_after ?out) = aggregator r"
    "iterations (resampler_after ?out) = iterations r"
    "sampleAggregates (resampler_after ?out) = sampleAggregates r @ new"
    "case fault_of ?out of None \<Rightarrow> length new = length [0..<nat (iterations r)]
     | Some f \<Rightarrow> length new < length [0..<nat (iterations r)]"
    by blast
  show ?thesis
  proof (cases ?out)
    case (Inl e)
    then obtain f h1 r1 where "e = (f, h1, r1)" by (cases e) auto
    with Inl new show ?thesis
      by (intro conjI exI[of _ new])
        (simp_all add: BasicResampler_Resample_def make_slice_def heap_after_simps)
  next
    case (Inr st)
    then obtain h1 r1 where "st = (h1, r1)" by (cases st) auto
    with Inr new show ?thesis
      by (intro conjI exI[of _ new])
        (simp_all add: BasicResampler_Resample_def make_slice_def heap_after_simps)
  qed
qed

lemma PresampledResampler_Resample_fields:
  "aggregator (resampler_after (PresampledResampler_Resample h r values)) = aggregator r \<and>
   iterations (resampler_after (PresampledResampler_Resample h r values)) = iterations r \<and>
   samples (resampler_after (PresampledResampler_Resample h r values)) = samples r \<and>
   (\<exists>new. case fault_of (PresampledResampler_Resample h r values) of
      None \<Rightarrow> length new = nat (iterations r) \<and>
        sampleAggregates (resampler_after (PresampledResampler_Resample h r values)) =
          Float64s (sampleAggregates r @ new)
    | Some f \<Rightarrow> length new < nat (iterations r) \<and>
        sampleAggregates (resampler_after (PresampledResampler_Resample h r values)) =
          sampleAggregates r @ new)"
proof -
  let ?sc = "\<lparr>slice_array = length h, slice_low = 0, slice_len = slice_len values\<rparr>"
  let ?h0 = "h @ [replicate (slice_len values) (Finite 0)]"
  let ?out = "presampled_rounds values ?sc [0..<nat (iterations r)] (?h0, r)"
  from presampled_rounds_fields[of "values" ?sc "[0..<nat (iterations r)]" ?h0 r]
  obtain new where new: "aggregator (resampler_after ?out) = aggregator r"
    "iterations (resampler_after ?out) = iterations r"
    "samples (resampler_after ?out) = samples r"
    "sampleAggregates (resampler_after ?out) = sampleAggregates r @ new"
    "case fault_of ?out of None \<Rightarrow> length new = length [0..<nat (iterations r)]
     | Some f \<Rightarrow> length new < length [0..<nat (iterations r)]"
    by blast
  show ?thesis
  proof (cases ?out)
    case (Inl e)
    then obtain f h1 r1 where "e = (f, h1, r1)" by (cases e) auto
    with Inl new show ?thesis
      by (intro conjI exI[of _ new])
        (simp_all add: PresampledResampler_Resample_def make_slice_def heap_after_simps)
  next
    case (Inr st)
    then obtain h1 r1 where "st = (h1, r1)" by (cases st) auto
    with Inr new show ?thesis
      by (intro conjI exI[of _ new])
        (simp_all add: PresampledResampler_Resample_def make_slice_def heap_after_simps)
  qed
qed

lemma BasicResampler_Resample_Inr:
  assumes "BasicResampler_Resample h r values = Inr (h1, r1)"
  shows "aggregator r1 = aggregator r" "iterations r1 = iterations r"
    "\<exists>new. length new = nat (iterations r) \<and>
       sampleAggregates r1 = Float64s (sampleAggregates r @ new)"
    "take (length h) h1 = h"
  using BasicResampler_Resample_fields[of h r "values"]
    BasicResampler_Resample_heap[of h r "values"] assms
  by (simp_all add: heap_after_simps)

lemma PresampledResampler_Resample_Inr:
  assumes "PresampledResampler_Resample h r values = Inr (h1, r1)"
  shows "aggregator r1 = aggregator r" "iterations r1 = iterations r" "samples r1 = samples r"
    "\<exists>new. length new = nat (iterations r) \<and>
       sampleAggregates r1 = Float64s (sampleAggregates r @ new)"
    "take (length h) h1 = h"
  using PresampledResampler_Resample_fields[of h r "values"]
    PresampledResampler_Resample_heap[of h r "values"] assms
  by (simp_all add: heap_after_simps)

subsection \<open>The loops of Resample, in closed form\<close>

lemma Aggregate_length: "length (snd (Aggregate a vs)) = length vs"
  by (cases a) (simp_all add: Float64s_length)

lemma contents_length: "valid_slice h s \<Longrightarrow> length (contents h s) = slice_len s"
  by (auto simp: contents_def valid_slice_def)

lemma load_contents:
  "valid_slice h s \<Longrightarrow> 0 \<le> i \<Longrightarrow> i < int (slice_len s) \<Longrightarrow>
   load h s i = Inr (contents h s ! nat i)"
  by (simp add: load_def contents_def valid_slice_def)

lemma scratch_contents:
  "length (h ! sa) = n \<Longrightarrow> contents h \<lparr>slice_array = sa, slice_low = 0, slice_len = n\<rparr> = h ! sa"
  by (simp add: contents_def)

lemma scratch_overwrite:
  "length (h ! sa) = n \<Longrightarrow>
   overwrite h \<lparr>slice_array = sa, slice_low = 0, slice_len = n\<rparr> new = h[sa := new]"
  by (simp add: overwrite_def)

lemma scratch_store:
  "i < n \<Longrightarrow>
   store h \<lparr>slice_array = sa, slice_low = 0, slice_len = n\<rparr> (int i) v =
     Inr (h[sa := (h ! sa)[i := v]])"
  by (simp add: store_def)

lemma update_other:
  "valid_slice h s \<Longrightarrow> slice_array s \<noteq> sa \<Longrightarrow>
   valid_slice (h[sa := new]) s \<and> contents (h[sa := new]) s = contents h s"
  by (simp add: valid_slice_def contents_def)

lemma advance_0: "advance 0 r = r"
  by (simp add: advance_def)

lemma advance_fields:
  "aggregator (advance n r) = aggregator r" "iterations (advance n r) = iterations r"
  "sampleAggregates (advance n r) = sampleAggregates r"
  "r_source (advance n r) = (\<lambda>k. r_source r (k + n))"
  by (simp_all add: advance_def)

lemma basic_draw_upt:
  assumes "sa < length h" and "length (h ! sa) = n" and "slice_array values \<noteq> sa"
    and "valid_slice h values" and "slice_len values = n" and "i \<le> n"
  shows "basic_draw values \<lparr>slice_array = sa, slice_low = 0, slice_len = n\<rparr> (int n) [i..<n] (h, r) =
     Inr (h[sa := take i (h ! sa) @
            map (\<lambda>p. contents h values ! nat (uint (r_source r (p - i)) mod int n)) [i..<n]],
          advance (n - i) r)"
  using assms
proof (induction "n - i" arbitrary: i h r)
  case 0
  then have "i = n" by simp
  with 0 show ?case by (simp add: advance_0)
next
  case (Suc m)
  let ?sc = "\<lparr>slice_array = sa, slice_low = 0, slice_len = n\<rparr>"
  let ?vals = "contents h values"
  from Suc.hyps(2) have i: "i < n" and m: "m = n - Suc i" by simp_all
  define idx where "idx = uint (r_source r 0) mod int n"
  define v where "v = ?vals ! nat idx"
  define h1 where "h1 = h[sa := (h ! sa)[i := v]]"
  define r1 where "r1 = r\<lparr>r_source := (\<lambda>k. r_source r (Suc k))\<rparr>"
  from i have idx: "0 \<le> idx" "idx < int n" by (simp_all add: idx_def)
  have ld: "load h values idx = Inr v"
    using load_contents[OF Suc.prems(4) idx(1)] idx(2) Suc.prems(5) by (simp add: v_def)
  have st: "store h ?sc (int i) v = Inr h1"
    using scratch_store[OF i] by (simp add: h1_def)
  have step: "basic_draw values ?sc (int n) [i..<n] (h, r) =
      basic_draw values ?sc (int n) [Suc i..<n] (h1, r1)"
    using i ld st by (simp add: upt_conv_Cons Int63_def idx_def[symmetric] r1_def)
  have h1: "sa < length h1" "length (h1 ! sa) = n"
    using Suc.prems(1,2) by (simp_all add: h1_def)
  from update_other[OF Suc.prems(4,3)]
  have vs: "valid_slice h1 values" "contents h1 values = ?vals"
    by (simp_all add: h1_def)
  have IH: "basic_draw values ?sc (int n) [Suc i..<n] (h1, r1) =
     Inr (h1[sa := take (Suc i) (h1 ! sa) @
            map (\<lambda>p. contents h1 values ! nat (uint (r_source r1 (p - Suc i)) mod int n)) [Suc i..<n]],
          advance (n - Suc i) r1)"
    using Suc.hyps(1)[OF m h1 Suc.prems(3) vs(1) Suc.prems(5)] i by simp
  have tk: "take (Suc i) (h1 ! sa) = take i (h ! sa) @ [v]"
    using i Suc.prems(1,2) by (simp add: h1_def take_Suc_conv_app_nth)
  have mp: "map (\<lambda>p. contents h1 values ! nat (uint (r_source r1 (p - Suc i)) mod int n)) [Suc i..<n] =
      map (\<lambda>p. ?vals ! nat (uint (r_source r (p - i)) mod int n)) [Suc i..<n]"
    by (rule map_cong) (auto simp: vs(2) r1_def Suc_diff_Suc)
  have hd: "map (\<lambda>p. ?vals ! nat (uint (r_source r (p - i)) mod int n)) [i..<n] =
      v # map (\<lambda>p. ?vals ! nat (uint (r_source r (p - i)) mod int n)) [Suc i..<n]"
    using i by (simp add: upt_conv_Cons v_def idx_def)
  have adv: "advance (n - Suc i) r1 = advance (n - i) r"
    using i by (simp add: advance_def r1_def Suc_diff_Suc)
  show ?case
    unfolding step IH tk mp hd adv by (simp add: h1_def)
qed

lemma basic_draw_round:
  assumes "sa < length h" and "length (h ! sa) = n" and "slice_array values \<noteq> sa"
    and "valid_slice h values" and "slice_len values = n"
  shows "basic_draw values \<lparr>slice_array = sa, slice_low = 0, slice_len = n\<rparr> (int n) [0..<n] (h, r) =
     Inr (h[sa := direct_scratch (contents h values) (r_source r)], advance n r)"
  using basic_draw_upt[OF assms, of 0 r] contents_length[OF assms(4)] assms(5)
  by (simp add: direct_scratch_def)

lemma direct_scratch_length: "length (direct_scratch vals src) = length vals"
  by (simp add: direct_scratch_def)

lemma basic_rounds_refines:
  assumes "sa < length h" and "length (h ! sa) = n" and "slice_array values \<noteq> sa"
    and "valid_slice h values" and "slice_len values = n"
  shows "fault_of (basic_rounds values \<lparr>slice_array = sa, slice_low = 0, slice_len = n\<rparr> (int n) rounds (h, r)) =
           fst (direct_rounds (contents h values) rounds r) \<and>
         resampler_after (basic_rounds values \<lparr>slice_array = sa, slice_low = 0, slice_len = n\<rparr> (int n) rounds (h, r)) =
           snd (direct_rounds (contents h values) rounds r)"
  using assms
proof (induction rounds arbitrary: h r)
  case Nil
  show ?case by (simp add: heap_after_simps)
next
  case (Cons i rounds)
  let ?sc = "\<lparr>slice_array = sa, slice_low = 0, slice_len = n\<rparr>"
  let ?vals = "contents h values"
  define S where "S = direct_scratch ?vals (r_source r)"
  define h1 where "h1 = h[sa := S]"
  have len: "length ?vals = n" using contents_length[OF Cons.prems(4)] Cons.prems(5) by simp
  have S: "length S = n" by (simp add: S_def direct_scratch_length len)
  have draw: "basic_draw values ?sc (int n) [0..<slice_len values] (h, r) = Inr (h1, advance n r)"
    using basic_draw_round[OF Cons.prems, of r] Cons.prems(5) by (simp add: h1_def S_def)
  have h1: "sa < length h1" "h1 ! sa = S" using Cons.prems(1) by (simp_all add: h1_def)
  have c1: "contents h1 ?sc = S" using scratch_contents[of h1 sa n] h1(2) S by simp
  obtain res after where ag: "Aggregate (aggregator r) S = (res, after)"
    by (cases "Aggregate (aggregator r) S") auto
  have after: "length after = n" using Aggregate_length[of "aggregator r" S] ag S by simp
  have ow: "overwrite h1 ?sc after = h[sa := after]"
    using scratch_overwrite[of h1 sa n after] h1(2) S by (simp add: h1_def)
  show ?case
  proof (cases res)
    case (Inl f)
    then show ?thesis
      using draw c1 ag
      by (simp add: heap_after_simps append_aggregate_def advance_fields len S_def[symmetric])
  next
    case (Inr a)
    let ?r2 = "(advance n r)\<lparr>sampleAggregates := sampleAggregates (advance n r) @ [a]\<rparr>"
    let ?h2 = "h[sa := after]"
    have h2: "sa < length ?h2" "length (?h2 ! sa) = n" using Cons.prems(1) after by simp_all
    from update_other[OF Cons.prems(4,3)]
    have vs: "valid_slice ?h2 values" "contents ?h2 values = ?vals" by simp_all
    have eq: "basic_rounds values ?sc (int n) (i # rounds) (h, r) =
        basic_rounds values ?sc (int n) rounds (?h2, ?r2)"
      using draw c1 ag Inr ow by (simp add: advance_fields)
    have eq2: "direct_rounds ?vals (i # rounds) r = direct_rounds ?vals rounds ?r2"
      using ag Inr by (simp add: append_aggregate_def advance_fields len S_def[symmetric])
    show ?thesis
      unfolding eq eq2 using Cons.IH[OF h2 Cons.prems(3) vs(1) Cons.prems(5), of ?r2]
      by (simp add: vs(2))
  qed
qed

lemma fresh_scratch:
  assumes "valid_slice h values"
  shows "length h < length (h @ [replicate n z])"
    and "length ((h @ [replicate n z]) ! length h) = n"
    and "slice_array values \<noteq> length h"
    and "valid_slice (h @ [replicate n z]) values"
    and "contents (h @ [replicate n z]) values = contents h values"
  using assms by (simp_all add: valid_slice_def contents_def nth_append)

lemma BasicResampler_Resample_refines:
  assumes "valid_slice h values"
  shows "fault_of (BasicResampler_Resample h r values) = fst (direct_resample r (contents h values)) \<and>
         resampler_after (BasicResampler_Resample h r values) =
           snd (direct_resample r (contents h values))"
proof -
  let ?n = "slice_len values"
  let ?sc = "\<lparr>slice_array = length h, slice_low = 0, slice_len = ?n\<rparr>"
  let ?h0 = "h @ [replicate ?n (Finite 0)]"
  let ?out = "basic_rounds values ?sc (int ?n) [0..<nat (iterations r)] (?h0, r)"
  note fs = fresh_scratch[OF assms]
  from basic_rounds_refines[OF fs(1,2) fs(3) fs(4) refl, where rounds = "[0..<nat (iterations r)]" and r = r]
  have R: "fault_of ?out = fst (direct_rounds (contents h values) [0..<nat (iterations r)] r)"
    "resampler_after ?out = snd (direct_rounds (contents h values) [0..<nat (iterations r)] r)"
    by (simp_all add: fs(5))
  show ?thesis
  proof (cases ?out)
    case (Inl e)
    then obtain f h1 r1 where "e = (f, h1, r1)" by (cases e) auto
    with Inl R show ?thesis
      by (cases "direct_rounds (contents h values) [0..<nat (iterations r)] r")
        (auto simp: BasicResampler_Resample_def make_slice_def heap_after_simps
          direct_resample_def finish_def)
  next
    case (Inr st)
    then obtain h1 r1 where "st = (h1, r1)" by (cases st) auto
    with Inr R show ?thesis
      by (cases "direct_rounds (contents h values) [0..<nat (iterations r)] r")
        (auto simp: BasicResampler_Resample_def make_slice_def heap_after_simps
          direct_resample_def finish_def sort_aggregates_def)
  qed
qed

lemma scaled_nth:
  "length vals \<le> length counts \<Longrightarrow>
   scaled vals counts = map (\<lambda>j. fmul (vals ! j) (float64_of_int (counts ! j))) [0..<length vals]"
  by (rule nth_equalityI) (simp_all add: scaled_def)

lemma elem_at_nat: "j < length xs \<Longrightarrow> elem_at xs (int j) = Inr (xs ! j)"
  by (simp add: elem_at_def)

lemma elem_at_end: "elem_at xs (int (length xs)) = Inl (IndexOutOfRange (int (length xs)) (length xs))"
  by (simp add: elem_at_def)

lemma presampled_scale_upt:
  assumes "sa < length h" and "length (h ! sa) = n" and "slice_array values \<noteq> sa"
    and "valid_slice h values" and "slice_len values = n" and "i \<le> n"
    and "elem_at (samples r) k = Inr counts" and "n \<le> length counts"
  shows "presampled_scale values \<lparr>slice_array = sa, slice_low = 0, slice_len = n\<rparr> k [i..<n] (h, r) =
     Inr (h[sa := take i (h ! sa) @
            map (\<lambda>j. fmul (contents h values ! j) (float64_of_int (counts ! j))) [i..<n]], r)"
  using assms
proof (induction "n - i" arbitrary: i h)
  case 0
  then have "i = n" by simp
  with 0 show ?case by simp
next
  case (Suc m)
  let ?sc = "\<lparr>slice_array = sa, slice_low = 0, slice_len = n\<rparr>"
  let ?vals = "contents h values"
  from Suc.hyps(2) have i: "i < n" and m: "m = n - Suc i" by simp_all
  define v where "v = fmul (?vals ! i) (float64_of_int (counts ! i))"
  define h1 where "h1 = h[sa := (h ! sa)[i := v]]"
  have ld: "load h values (int i) = Inr (?vals ! i)"
    using load_contents[OF Suc.prems(4), of "int i"] i Suc.prems(5) by simp
  have ct: "elem_at counts (int i) = Inr (counts ! i)"
    using i Suc.prems(8) by (simp add: elem_at_nat)
  have st: "store h ?sc (int i) v = Inr h1"
    using scratch_store[OF i] by (simp add: h1_def)
  have step: "presampled_scale values ?sc k [i..<n] (h, r) =
      presampled_scale values ?sc k [Suc i..<n] (h1, r)"
    using i ld ct st Suc.prems(7) by (simp add: upt_conv_Cons v_def)
  have h1: "sa < length h1" "length (h1 ! sa) = n"
    using Suc.prems(1,2) by (simp_all add: h1_def)
  from update_other[OF Suc.prems(4,3)]
  have vs: "valid_slice h1 values" "contents h1 values = ?vals"
    by (simp_all add: h1_def)
  have IH: "presampled_scale values ?sc k [Suc i..<n] (h1, r) =
     Inr (h1[sa := take (Suc i) (h1 ! sa) @
            map (\<lambda>j. fmul (contents h1 values ! j) (float64_of_int (counts ! j))) [Suc i..<n]], r)"
    using Suc.hyps(1)[OF m h1 Suc.prems(3) vs(1) Suc.prems(5) _ Suc.prems(7,8)] i by simp
  have tk: "take (Suc i) (h1 ! sa) = take i (h ! sa) @ [v]"
    using i Suc.prems(1,2) by (simp add: h1_def take_Suc_conv_app_nth)
  have hd: "map (\<lambda>j. fmul (?vals ! j) (float64_of_int (counts ! j))) [i..<n] =
      v # map (\<lambda>j. fmul (?vals ! j) (float64_of_int (counts ! j))) [Suc i..<n]"
    using i by (simp add: upt_conv_Cons v_def)
  show ?case
    unfolding step IH tk vs(2) hd by (simp add: h1_def)
qed

lemma presampled_scale_short:
  assumes "sa < length h" and "length (h ! sa) = n" and "slice_array values \<noteq> sa"
    and "valid_slice h values" and "slice_len values = n"
    and "elem_at (samples r) k = Inr counts" and "i \<le> length counts" and "length counts < n"
  shows "fault_of (presampled_scale values \<lparr>slice_array = sa, slice_low = 0, slice_len = n\<rparr> k [i..<n] (h, r)) =
     Some (IndexOutOfRange (int (length counts)) (length counts))"
  using assms
proof (induction "length counts - i" arbitrary: i h)
  case 0
  then have i: "i = length counts" "i < n" by simp_all
  have ld: "load h values (int i) = Inr (contents h values ! i)"
    using load_contents[OF 0(5), of "int i"] i 0(6) by simp
  show ?case
    using i ld 0(7) elem_at_end[of counts]
    by (simp add: upt_conv_Cons heap_after_simps)
next
  case (Suc m)
  let ?sc = "\<lparr>slice_array = sa, slice_low = 0, slice_len = n\<rparr>"
  let ?vals = "contents h values"
  from Suc.hyps(2) Suc.prems(8) have i: "i < length counts" "i < n" and m: "m = length counts - Suc i"
    by simp_all
  define v where "v = fmul (?vals ! i) (float64_of_int (counts ! i))"
  define h1 where "h1 = h[sa := (h ! sa)[i := v]]"
  have ld: "load h values (int i) = Inr (?vals ! i)"
    using load_contents[OF Suc.prems(4), of "int i"] i Suc.prems(5) by simp
  have ct: "elem_at counts (int i) = Inr (counts ! i)"
    using i by (simp add: elem_at_nat)
  have st: "store h ?sc (int i) v = Inr h1"
    using scratch_store[OF i(2)] by (simp add: h1_def)
  have step: "presampled_scale values ?sc k [i..<n] (h, r) =
      presampled_scale values ?sc k [Suc i..<n] (h1, r)"
    using i ld ct st Suc.prems(6) by (simp add: upt_conv_Cons v_def)
  have h1: "sa < length h1" "length (h1 ! sa) = n"
    using Suc.prems(1,2) by (simp_all add: h1_def)
  from update_other[OF Suc.prems(4,3)]
  have vs: "valid_slice h1 values"
    by (simp_all add: h1_def)
  show ?case
    unfolding step
    using Suc.hyps(1)[OF m h1 Suc.prems(3) vs Suc.prems(5,6) _ Suc.prems(8)] i by simp
qed

lemma presampled_scale_norow:
  assumes "valid_slice h values" and "slice_len values = n" and "0 < n"
    and "elem_at (samples r) k = Inl f"
  shows "presampled_scale values sc k [0..<n] (h, r) = Inl (f, h, r)"
proof -
  have "load h values (int 0) = Inr (contents h values ! 0)"
    using load_contents[OF assms(1), of "int 0"] assms(2,3) by simp
  with assms show ?thesis by (simp add: upt_conv_Cons)
qed

lemma presampled_scale_round:
  assumes "sa < length h" and "length (h ! sa) = n" and "slice_array values \<noteq> sa"
    and "valid_slice h values" and "slice_len values = n"
  shows "case scaled_scratch (contents h values) (samples r) k of
           Inl f \<Rightarrow>
             fault_of (presampled_scale values \<lparr>slice_array = sa, slice_low = 0, slice_len = n\<rparr> k [0..<n] (h, r)) = Some f
         | Inr S \<Rightarrow>
             presampled_scale values \<lparr>slice_array = sa, slice_low = 0, slice_len = n\<rparr> k [0..<n] (h, r) =
               Inr (h[sa := S], r)"
proof -
  let ?vals = "contents h values"
  have len: "length ?vals = n" using contents_length[OF assms(4)] assms(5) by simp
  show ?thesis
  proof (cases "n = 0")
    case True
    with assms(2) have "h ! sa = []" by simp
    then have "h[sa := []] = h" by (metis list_update_id)
    with True len show ?thesis by (simp add: scaled_scratch_def)
  next
    case False
    then have ne: "?vals \<noteq> []" using len by auto
    show ?thesis
    proof (cases "elem_at (samples r) k")
      case (Inl f)
      with presampled_scale_norow[OF assms(4,5) _ Inl] False ne show ?thesis
        by (simp add: scaled_scratch_def heap_after_simps)
    next
      case (Inr counts)
      show ?thesis
      proof (cases "n \<le> length counts")
        case True
        from presampled_scale_upt[OF assms le0 Inr True] True Inr ne len show ?thesis
          by (simp add: scaled_scratch_def scaled_nth)
      next
        case False
        then have "length counts < n" by simp
        from presampled_scale_short[OF assms Inr le0 this] False Inr ne len show ?thesis
          by (simp add: scaled_scratch_def)
      qed
    qed
  qed
qed

lemma scaled_scratch_length:
  "scaled_scratch vals table k = Inr S \<Longrightarrow> length S = length vals"
  by (auto simp: scaled_scratch_def scaled_def split: if_splits sum.splits)

lemma presampled_rounds_refines:
  assumes "sa < length h" and "length (h ! sa) = n" and "slice_array values \<noteq> sa"
    and "valid_slice h values" and "slice_len values = n"
  shows "fault_of (presampled_rounds values \<lparr>slice_array = sa, slice_low = 0, slice_len = n\<rparr> rounds (h, r)) =
           fst (scaled_rounds (contents h values) rounds r) \<and>
         resampler_after (presampled_rounds values \<lparr>slice_array = sa, slice_low = 0, slice_len = n\<rparr> rounds (h, r)) =
           snd (scaled_rounds (contents h values) rounds r)"
  using assms
proof (induction rounds arbitrary: h r)
  case Nil
  show ?case by (simp add: heap_after_simps)
next
  case (Cons i rounds)
  let ?sc = "\<lparr>slice_array = sa, slice_low = 0, slice_len = n\<rparr>"
  let ?vals = "contents h values"
  let ?inner = "presampled_scale values ?sc (int i) [0..<n] (h, r)"
  have len: "length ?vals = n" using contents_length[OF Cons.prems(4)] Cons.prems(5) by simp
  note round = presampled_scale_round[OF Cons.prems, where r = r and k = "int i"]
  show ?case
  proof (cases "scaled_scratch ?vals (samples r) (int i)")
    case (Inl f)
    with round have fo: "fault_of ?inner = Some f" by simp
    then obtain h1 r1 where inner: "?inner = Inl (f, h1, r1)"
      by (cases ?inner) (auto simp: fault_of_def)
    then have "r1 = r" by (auto dest: presampled_scale_Inl(2))
    with inner Inl Cons.prems(5) show ?thesis by (simp add: heap_after_simps)
  next
    case (Inr S)
    define h1 where "h1 = h[sa := S]"
    from Inr round have inner: "?inner = Inr (h1, r)" by (simp add: h1_def)
    have S: "length S = n" using scaled_scratch_length[OF Inr] len by simp
    have h1: "sa < length h1" "h1 ! sa = S" using Cons.prems(1) by (simp_all add: h1_def)
    have c1: "contents h1 ?sc = S" using scratch_contents[of h1 sa n] h1(2) S by simp
    obtain res after where ag: "Aggregate (aggregator r) S = (res, after)"
      by (cases "Aggregate (aggregator r) S") auto
    have after: "length after = n" using Aggregate_length[of "aggregator r" S] ag S by simp
    have ow: "overwrite h1 ?sc after = h[sa := after]"
      using scratch_overwrite[of h1 sa n after] h1(2) S by (simp add: h1_def)
    show ?thesis
    proof (cases res)
      case (Inl f)
      then show ?thesis
        using inner c1 ag Inr Cons.prems(5)
        by (simp add: heap_after_simps append_aggregate_def)
    next
      case (Inr a)
      let ?r2 = "r\<lparr>sampleAggregates := sampleAggregates r @ [a]\<rparr>"
      let ?h2 = "h[sa := after]"
      have h2: "sa < length ?h2" "length (?h2 ! sa) = n" using Cons.prems(1) after by simp_all
      from update_other[OF Cons.prems(4,3)]
      have vs: "valid_slice ?h2 values" "contents ?h2 values = ?vals" by simp_all
      have eq: "presampled_rounds values ?sc (i # rounds) (h, r) =
          presampled_rounds values ?sc rounds (?h2, ?r2)"
        using inner c1 ag Inr ow Cons.prems(5) by simp
      have eq2: "scaled_rounds ?vals (i # rounds) r = scaled_rounds ?vals rounds ?r2"
        using ag Inr \<open>scaled_scratch ?vals (samples r) (int i) = Inr S\<close>
        by (simp add: append_aggregate_def)
      show ?thesis
        unfolding eq eq2 using Cons.IH[OF h2 Cons.prems(3) vs(1) Cons.prems(5), of ?r2]
        by (simp add: vs(2))
    qed
  qed
qed

lemma PresampledResampler_Resample_refines:
  assumes "valid_slice h values"
  shows "fault_of (PresampledResampler_Resample h r values) =
           fst (presampled_resample r (contents h values)) \<and>
         resampler_after (PresampledResampler_Resample h r values) =
           snd (presampled_resample r (contents h values))"
proof -
  let ?n = "slice_len values"
  let ?sc = "\<lparr>slice_array = length h, slice_low = 0, slice_len = ?n\<rparr>"
  let ?h0 = "h @ [replicate ?n (Finite 0)]"
  let ?out = "presampled_rounds values ?sc [0..<nat (iterations r)] (?h0, r)"
  note fs = fresh_scratch[OF assms]
  from presampled_rounds_refines[OF fs(1,2) fs(3) fs(4) refl, where rounds = "[0..<nat (iterations r)]" and r = r]
  have R: "fault_of ?out = fst (scaled_rounds (contents h values) [0..<nat (iterations r)] r)"
    "resampler_after ?out = snd (scaled_rounds (contents h values) [0..<nat (iterations r)] r)"
    by (simp_all add: fs(5))
  show ?thesis
  proof (cases ?out)
    case (Inl e)
    then obtain f h1 r1 where "e = (f, h1, r1)" by (cases e) auto
    with Inl R show ?thesis
      by (cases "scaled_rounds (contents h values) [0..<nat (iterations r)] r")
        (auto simp: PresampledResampler_Resample_def make_slice_def heap_after_simps
          presampled_resample_def finish_def)
  next
    case (Inr st)
    then obtain h1 r1 where "st = (h1, r1)" by (cases st) auto
    with Inr R show ?thesis
      by (cases "scaled_rounds (contents h values) [0..<nat (iterations r)] r")
        (auto simp: PresampledResampler_Resample_def make_slice_def heap_after_simps
          presampled_resample_def finish_def sort_aggregates_def)
  qed
qed

subsection \<open>The table of a new PresampledResampler\<close>

lemma sum_list_increment:
  "k < length (xs :: int list) \<Longrightarrow> sum_list (xs[k := xs ! k + 1]) = sum_list xs + 1"
proof (induction xs arbitrary: k)
  case Nil
  then show ?case by simp
next
  case (Cons x xs)
  then show ?case by (cases k) simp_all
qed

lemma list_all_increment:
  "list_all (\<lambda>c. 0 \<le> c) (xs :: int list) \<Longrightarrow> k < length xs \<Longrightarrow>
   list_all (\<lambda>c. 0 \<le> c) (xs[k := xs ! k + 1])"
proof (induction xs arbitrary: k)
  case Nil
  then show ?case by simp
next
  case (Cons x xs)
  then show ?case by (cases k) simp_all
qed

lemma count_draws_ok:
  assumes "0 < numValues" and "int (length row) = numValues" and "list_all (\<lambda>c. 0 \<le> c) row"
  shows "\<exists>row' src'. count_draws numValues ps (row, src) = Inr (row', src') \<and>
           length row' = length row \<and> list_all (\<lambda>c. 0 \<le> c) row' \<and>
           sum_list row' = sum_list row + int (length ps)"
  using assms(2,3)
proof (induction ps arbitrary: row src)
  case Nil
  then show ?case by simp
next
  case (Cons p ps)
  define k where "k = uint (src 0) mod numValues"
  have k: "0 \<le> k" "k < numValues" using assms(1) by (simp_all add: k_def)
  then have kn: "nat k < length row" using Cons.prems(1) by linarith
  have at: "elem_at row k = Inr (row ! nat k)" using k Cons.prems(1) by (simp add: elem_at_def)
  let ?row1 = "row[nat k := row ! nat k + 1]"
  have step: "count_draws numValues (p # ps) (row, src) =
      count_draws numValues ps (?row1, \<lambda>j. src (Suc j))"
    using assms(1) at by (simp add: Int63_def k_def[symmetric])
  have r1: "int (length ?row1) = numValues" "list_all (\<lambda>c. 0 \<le> c) ?row1"
    using Cons.prems list_all_increment[OF Cons.prems(2) kn] by simp_all
  from Cons.IH[OF r1, of "\<lambda>j. src (Suc j)"] obtain row' src' where
    "count_draws numValues ps (?row1, \<lambda>j. src (Suc j)) = Inr (row', src')"
    "length row' = length ?row1" "list_all (\<lambda>c. 0 \<le> c) row'"
    "sum_list row' = sum_list ?row1 + int (length ps)"
    by blast
  then show ?case
    unfolding step using sum_list_increment[OF kn] by simp
qed

lemma new_row:
  assumes "0 \<le> numValues"
  shows "\<exists>row' src'. count_draws numValues [0..<nat numValues] (replicate (nat numValues) 0, src) =
           Inr (row', src') \<and> good_row numValues row'"
proof (cases "numValues = 0")
  case True
  then show ?thesis by (simp add: good_row_def)
next
  case False
  with assms have pos: "0 < numValues" by simp
  have "int (length (replicate (nat numValues) (0::int))) = numValues" using assms by simp
  moreover have "list_all (\<lambda>c. 0 \<le> c) (replicate (nat numValues) (0::int))"
    by (simp add: list_all_iff)
  ultimately show ?thesis
    using count_draws_ok[OF pos, of "replicate (nat numValues) 0" "[0..<nat numValues]" src] assms
    by (auto simp: good_row_def sum_list_replicate)
qed

lemma fill_samples_ok:
  assumes "0 \<le> numValues" and "length table = n" and "i \<le> n"
    and "list_all (good_row numValues) (take i table)"
  shows "\<exists>table' src'. fill_samples numValues [i..<n] (table, src) = Inr (table', src') \<and>
           length table' = n \<and> list_all (good_row numValues) table'"
  using assms(2-4)
proof (induction "n - i" arbitrary: i table src)
  case 0
  then show ?case by simp
next
  case (Suc m)
  from Suc.hyps(2) have i: "i < n" and m: "m = n - Suc i" by simp_all
  from new_row[OF assms(1), of src] obtain row src1 where
    row: "count_draws numValues [0..<nat numValues] (replicate (nat numValues) 0, src) = Inr (row, src1)"
      "good_row numValues row"
    by blast
  have step: "fill_samples numValues [i..<n] (table, src) =
      fill_samples numValues [Suc i..<n] (table[i := row], src1)"
    using i assms(1) row(1) by (simp add: upt_conv_Cons)
  have tk: "take (Suc i) (table[i := row]) = take i table @ [row]"
    using i Suc.prems(1) by (simp add: take_Suc_conv_app_nth)
  have "list_all (good_row numValues) (take (Suc i) (table[i := row]))"
    unfolding tk using Suc.prems(3) row(2) by simp
  from Suc.hyps(1)[OF m _ _ this, of src1] i Suc.prems(1) show ?case
    unfolding step by simp
qed

lemma NewPresampledResampler_ok:
  assumes "0 \<le> n" and "0 \<le> numValues"
  shows "\<exists>table. NewPresampledResampler NewSource a n numValues =
           Inr \<lparr>aggregator = a, iterations = n, sampleAggregates = [], samples = table\<rparr> \<and>
           table_ok table n numValues"
proof -
  from fill_samples_ok[OF assms(2), of "replicate (nat n) []" "nat n" 0 "NewSource 0"]
  obtain table src where "fill_samples numValues [0..<nat n] (replicate (nat n) [], NewSource 0) = Inr (table, src)"
    "length table = nat n" "list_all (good_row numValues) table"
    by auto
  with assms(1) show ?thesis
    by (simp add: NewPresampledResampler_def table_ok_def)
qed

subsection \<open>Rounds as a sequence of scratch sequences\<close>

lemma append_aggregate_cases:
  "(\<exists>f. append_aggregate r S = Inl f \<and> fst (Aggregate (aggregator r) S) = Inl f) \<or>
   (\<exists>x. append_aggregate r S = Inr (r\<lparr>sampleAggregates := sampleAggregates r @ [x]\<rparr>) \<and>
        fst (Aggregate (aggregator r) S) = Inr x)"
  by (cases "fst (Aggregate (aggregator r) S)") (simp_all add: append_aggregate_def)

lemma scaled_scratch_ok:
  assumes "i < length table" and "length vals \<le> length (table ! i)"
  shows "scaled_scratch vals table (int i) = Inr (scaled vals (table ! i))"
  using assms by (simp add: scaled_scratch_def elem_at_def scaled_def)

lemma scaled_rounds_accumulate:
  assumes "\<forall>i \<in> set rounds. i < length (samples r) \<and> length vals \<le> length (samples r ! i)"
  shows "scaled_rounds vals rounds r = accumulate r (map (\<lambda>i. scaled vals (samples r ! i)) rounds)"
  using assms
proof (induction rounds arbitrary: r)
  case Nil
  show ?case by simp
next
  case (Cons i rounds)
  let ?S = "scaled vals (samples r ! i)"
  have sc: "scaled_scratch vals (samples r) (int i) = Inr ?S"
    using Cons.prems by (simp add: scaled_scratch_ok)
  from append_aggregate_cases[of r ?S] show ?case
  proof (elim disjE exE conjE)
    fix f assume "append_aggregate r ?S = Inl f"
    then show ?thesis by (simp add: sc)
  next
    fix x
    let ?r1 = "r\<lparr>sampleAggregates := sampleAggregates r @ [x]\<rparr>"
    assume a: "append_aggregate r ?S = Inr ?r1"
    have "scaled_rounds vals rounds ?r1 =
        accumulate ?r1 (map (\<lambda>i. scaled vals (samples ?r1 ! i)) rounds)"
      using Cons.prems by (intro Cons.IH) simp
    then show ?thesis by (simp add: sc a)
  qed
qed

lemma map_nth_all: "map (\<lambda>i. f (xs ! i)) [0..<length xs] = map f xs"
  by (rule nth_equalityI) simp_all

lemma table_rows:
  assumes "table_ok table n numValues"
  shows "length table = nat n" and "i < length table \<Longrightarrow> int (length (table ! i)) = numValues"
  using assms by (auto simp: table_ok_def good_row_def list_all_length)

lemma presampled_resample_accumulate:
  assumes "table_ok (samples r) (iterations r) numValues" and "int (length vals) \<le> numValues"
  shows "presampled_resample r vals = finish (accumulate r (map (scaled vals) (samples r)))"
proof -
  note t = table_rows[OF assms(1)]
  have "length vals \<le> length (samples r ! i)" if "i < length (samples r)" for i
    using t(2)[OF that] assms(2) by linarith
  then have "\<forall>i \<in> set [0..<nat (iterations r)]. i < length (samples r) \<and>
      length vals \<le> length (samples r ! i)"
    using t(1) by simp
  from scaled_rounds_accumulate[OF this] show ?thesis
    unfolding presampled_resample_def t(1)[symmetric] map_nth_all by simp
qed

lemma presampled_resample_too_long:
  assumes "table_ok (samples r) (iterations r) numValues" and "0 < iterations r"
    and "numValues < int (length vals)"
  shows "presampled_resample r vals = (Some (IndexOutOfRange numValues (nat numValues)), r)"
proof -
  note t = table_rows[OF assms(1)]
  from assms(2) t(1) have row: "0 < length (samples r)" by simp
  from t(2)[OF row] have len: "int (length (samples r ! 0)) = numValues" .
  have ne: "vals \<noteq> []" using assms(3) len by auto
  have "scaled_scratch vals (samples r) (int 0) =
      Inl (IndexOutOfRange numValues (nat numValues))"
    using row len ne assms(3) by (auto simp: scaled_scratch_def elem_at_def)
  moreover have "[0..<nat (iterations r)] = 0 # [1..<nat (iterations r)]"
    using assms(2) by (simp add: upt_conv_Cons)
  ultimately show ?thesis
    by (simp add: presampled_resample_def finish_def)
qed

lemma Aggregate_total:
  "a = SumAggregator \<or> a = AverageAggregator \<Longrightarrow> \<exists>x. fst (Aggregate a S) = Inr x"
  by auto

lemma accumulate_total:
  assumes "aggregator r = SumAggregator \<or> aggregator r = AverageAggregator"
  shows "fst (accumulate r scratches) = None"
  using assms
proof (induction scratches arbitrary: r)
  case Nil
  show ?case by simp
next
  case (Cons S scratches)
  from Aggregate_total[OF Cons.prems, of S] obtain x
    where "fst (Aggregate (aggregator r) S) = Inr x" by blast
  then have "append_aggregate r S = Inr (r\<lparr>sampleAggregates := sampleAggregates r @ [x]\<rparr>)"
    by (simp add: append_aggregate_def)
  with Cons.IH[of "r\<lparr>sampleAggregates := sampleAggregates r @ [x]\<rparr>"] Cons.prems
  show ?case by simp
qed

lemma finish_fst: "fst (finish x) = fst x"
  by (cases x) (auto simp: finish_def split: option.splits)

lemma accumulate_cong:
  assumes "aggregator r = aggregator r'" and "sampleAggregates r = sampleAggregates r'"
  shows "fst (accumulate r scratches) = fst (accumulate r' scratches) \<and>
         sampleAggregates (snd (accumulate r scratches)) =
           sampleAggregates (snd (accumulate r' scratches))"
  using assms
proof (induction scratches arbitrary: r r')
  case Nil
  then show ?case by simp
next
  case (Cons S scratches)
  show ?case
  proof (cases "fst (Aggregate (aggregator r) S)")
    case (Inl f)
    with Cons.prems show ?thesis by (simp add: append_aggregate_def)
  next
    case (Inr x)
    with Cons.prems
      Cons.IH[of "r\<lparr>sampleAggregates := sampleAggregates r @ [x]\<rparr>"
                 "r'\<lparr>sampleAggregates := sampleAggregates r' @ [x]\<rparr>"]
    show ?thesis by (simp add: append_aggregate_def)
  qed
qed

lemma direct_scratches_Suc:
  "direct_scratches vals src (Suc k) =
     direct_scratch vals src # direct_scratches vals (\<lambda>p. src (p + length vals)) k"
proof -
  let ?F = "\<lambda>s i. direct_scratch vals (\<lambda>p. s (p + i * length vals))"
  have "map (?F src) [0..<Suc k] = ?F src 0 # map (\<lambda>i. ?F src (Suc i)) [0..<k]"
    by (rule map_upt_Suc)
  moreover have "?F src 0 = direct_scratch vals src" by simp
  moreover have "?F src (Suc i) = ?F (\<lambda>p. src (p + length vals)) i" for i
    by (simp add: ac_simps)
  ultimately show ?thesis
    by (simp only: direct_scratches_def)
qed

lemma direct_rounds_accumulate:
  "fst (direct_rounds vals rounds r) =
     fst (accumulate r (direct_scratches vals (r_source r) (length rounds))) \<and>
   sampleAggregates (snd (direct_rounds vals rounds r)) =
     sampleAggregates (snd (accumulate r (direct_scratches vals (r_source r) (length rounds))))"
proof (induction rounds arbitrary: r)
  case Nil
  show ?case by (simp add: direct_scratches_def)
next
  case (Cons i rounds)
  let ?n = "length vals"
  let ?S = "direct_scratch vals (r_source r)"
  let ?rest = "direct_scratches vals (\<lambda>p. r_source r (p + ?n)) (length rounds)"
  have ds: "direct_scratches vals (r_source r) (length (i # rounds)) = ?S # ?rest"
    by (simp only: length_Cons direct_scratches_Suc)
  show ?case
  proof (cases "fst (Aggregate (aggregator r) ?S)")
    case (Inl f)
    then show ?thesis
      unfolding ds by (simp add: append_aggregate_def advance_fields)
  next
    case (Inr x)
    let ?r1 = "(advance ?n r)\<lparr>sampleAggregates := sampleAggregates (advance ?n r) @ [x]\<rparr>"
    let ?r1' = "r\<lparr>sampleAggregates := sampleAggregates r @ [x]\<rparr>"
    have d: "direct_rounds vals (i # rounds) r = direct_rounds vals rounds ?r1"
      using Inr by (simp add: append_aggregate_def advance_fields)
    have a: "accumulate r (?S # ?rest) = accumulate ?r1' ?rest"
      using Inr by (simp add: append_aggregate_def)
    have src: "r_source ?r1 = (\<lambda>p. r_source r (p + ?n))" by (simp add: advance_fields)
    have c: "fst (accumulate ?r1 ?rest) = fst (accumulate ?r1' ?rest) \<and>
        sampleAggregates (snd (accumulate ?r1 ?rest)) =
          sampleAggregates (snd (accumulate ?r1' ?rest))"
      by (rule accumulate_cong) (simp_all add: advance_fields)
    from Cons.IH[of ?r1] c show ?thesis
      unfolding ds d a src by simp
  qed
qed


lemma finish_sampleAggregates:
  assumes "fst x = fst y" and "sampleAggregates (snd x) = sampleAggregates (snd y)"
  shows "sampleAggregates (snd (finish x)) = sampleAggregates (snd (finish y))"
proof -
  obtain f r where x: "x = (f, r)" by (cases x)
  obtain g r' where y: "y = (g, r')" by (cases y)
  from assms x y have "f = g" "sampleAggregates r = sampleAggregates r'" by simp_all
  then show ?thesis
    unfolding x y by (cases g) (simp_all add: finish_def sort_aggregates_def)
qed

lemma direct_resample_accumulate:
  "fst (direct_resample r vals) =
     fst (finish (accumulate r (direct_scratches vals (r_source r) (nat (iterations r))))) \<and>
   sampleAggregates (snd (direct_resample r vals)) =
     sampleAggregates (snd (finish (accumulate r (direct_scratches vals (r_source r) (nat (iterations r))))))"
proof -
  from direct_rounds_accumulate[of vals "[0..<nat (iterations r)]" r]
  have a: "fst (direct_rounds vals [0..<nat (iterations r)] r) =
      fst (accumulate r (direct_scratches vals (r_source r) (nat (iterations r))))"
    and b: "sampleAggregates (snd (direct_rounds vals [0..<nat (iterations r)] r)) =
      sampleAggregates (snd (accumulate r (direct_scratches vals (r_source r) (nat (iterations r)))))"
    by simp_all
  show ?thesis
    unfolding direct_resample_def finish_fst using a finish_sampleAggregates[OF a b] by simp
qed

subsection \<open>Sequences of calls and the empty input\<close>

lemma fault_of_None: "fault_of x = None \<Longrightarrow> \<exists>s. x = Inr s"
  by (cases x) (auto simp: fault_of_def)

lemma BasicResampler_Resamples_two:
  assumes "fault_of (BasicResampler_Resamples h b [v, w]) = None"
  shows "\<exists>h1 b1 h2 b2. BasicResampler_Resample h b v = Inr (h1, b1) \<and>
           BasicResampler_Resample h1 b1 w = Inr (h2, b2) \<and>
           BasicResampler_Resamples h b [v, w] = Inr (h2, b2)"
proof (cases "BasicResampler_Resample h b v")
  case (Inl e)
  with assms show ?thesis by (cases e) (simp add: heap_after_simps)
next
  case (Inr st)
  obtain h1 b1 where st: "st = (h1, b1)" by (cases st)
  show ?thesis
  proof (cases "BasicResampler_Resample h1 b1 w")
    case (Inl e)
    with assms Inr st show ?thesis by (cases e) (simp add: heap_after_simps)
  next
    case (Inr st2)
    obtain h2 b2 where "st2 = (h2, b2)" by (cases st2)
    with Inr \<open>BasicResampler_Resample h b v = Inr st\<close> st show ?thesis by simp
  qed
qed

lemma PresampledResampler_Resamples_two:
  assumes "fault_of (PresampledResampler_Resamples h b [v, w]) = None"
  shows "\<exists>h1 b1 h2 b2. PresampledResampler_Resample h b v = Inr (h1, b1) \<and>
           PresampledResampler_Resample h1 b1 w = Inr (h2, b2) \<and>
           PresampledResampler_Resamples h b [v, w] = Inr (h2, b2)"
proof (cases "PresampledResampler_Resample h b v")
  case (Inl e)
  with assms show ?thesis by (cases e) (simp add: heap_after_simps)
next
  case (Inr st)
  obtain h1 b1 where st: "st = (h1, b1)" by (cases st)
  show ?thesis
  proof (cases "PresampledResampler_Resample h1 b1 w")
    case (Inl e)
    with assms Inr st show ?thesis by (cases e) (simp add: heap_after_simps)
  next
    case (Inr st2)
    obtain h2 b2 where "st2 = (h2, b2)" by (cases st2)
    with Inr \<open>PresampledResampler_Resample h b v = Inr st\<close> st show ?thesis by simp
  qed
qed

lemma same_input_after:
  assumes "same_input h1 h2 v1 v2" and "take (length h1) h1' = h1" and "take (length h2) h2' = h2"
  shows "same_input h1' h2' v1 v2"
  using assms contents_take[of h1 v1 h1'] contents_take[of h2 v2 h2']
  by (simp add: same_input_def)

lemma outcome_cases:
  obtains (panic) f h r where "x = Inl (f, h, r)" | (ok) h r where "x = Inr (h, r)"
  by (cases x) auto

lemma BasicResampler_Resamples_deterministic:
  assumes "list_all2 (same_input h1 h2) vs1 vs2"
  shows "fault_of (BasicResampler_Resamples h1 r vs1) = fault_of (BasicResampler_Resamples h2 r vs2) \<and>
         resampler_after (BasicResampler_Resamples h1 r vs1) =
           resampler_after (BasicResampler_Resamples h2 r vs2)"
  using assms
proof (induction vs1 arbitrary: vs2 h1 h2 r)
  case Nil
  then show ?case by (simp add: heap_after_simps)
next
  case (Cons v1 rest1)
  then obtain v2 rest2 where vs2: "vs2 = v2 # rest2" and v: "same_input h1 h2 v1 v2"
    and rest: "list_all2 (same_input h1 h2) rest1 rest2"
    by (auto simp: list_all2_Cons1)
  let ?o1 = "BasicResampler_Resample h1 r v1"
  let ?o2 = "BasicResampler_Resample h2 r v2"
  from v have "valid_slice h1 v1" "valid_slice h2 v2" "contents h1 v1 = contents h2 v2"
    by (simp_all add: same_input_def)
  with BasicResampler_Resample_refines[of h1 v1 r] BasicResampler_Resample_refines[of h2 v2 r]
  have eq: "fault_of ?o1 = fault_of ?o2" "resampler_after ?o1 = resampler_after ?o2"
    by simp_all
  show ?case
  proof (cases ?o1 rule: outcome_cases)
    case (panic f h1' r1)
    with eq obtain h2' where "?o2 = Inl (f, h2', r1)"
      by (cases ?o2 rule: outcome_cases) (auto simp: heap_after_simps)
    with panic show ?thesis by (simp add: vs2 heap_after_simps)
  next
    case (ok h1' r1)
    with eq obtain h2' where o2: "?o2 = Inr (h2', r1)"
      by (cases ?o2 rule: outcome_cases) (auto simp: heap_after_simps)
    have "list_all2 (same_input h1' h2') rest1 rest2"
      using rest BasicResampler_Resample_Inr(4)[OF ok] BasicResampler_Resample_Inr(4)[OF o2]
      by (auto elim!: list_all2_mono intro: same_input_after)
    from Cons.IH[OF this, of r1] ok o2 show ?thesis by (simp add: vs2)
  qed
qed

lemma PresampledResampler_Resamples_deterministic:
  assumes "list_all2 (same_input h1 h2) vs1 vs2"
  shows "fault_of (PresampledResampler_Resamples h1 r vs1) =
           fault_of (PresampledResampler_Resamples h2 r vs2) \<and>
         resampler_after (PresampledResampler_Resamples h1 r vs1) =
           resampler_after (PresampledResampler_Resamples h2 r vs2)"
  using assms
proof (induction vs1 arbitrary: vs2 h1 h2 r)
  case Nil
  then show ?case by (simp add: heap_after_simps)
next
  case (Cons v1 rest1)
  then obtain v2 rest2 where vs2: "vs2 = v2 # rest2" and v: "same_input h1 h2 v1 v2"
    and rest: "list_all2 (same_input h1 h2) rest1 rest2"
    by (auto simp: list_all2_Cons1)
  let ?o1 = "PresampledResampler_Resample h1 r v1"
  let ?o2 = "PresampledResampler_Resample h2 r v2"
  from v have "valid_slice h1 v1" "valid_slice h2 v2" "contents h1 v1 = contents h2 v2"
    by (simp_all add: same_input_def)
  with PresampledResampler_Resample_refines[of h1 v1 r]
    PresampledResampler_Resample_refines[of h2 v2 r]
  have eq: "fault_of ?o1 = fault_of ?o2" "resampler_after ?o1 = resampler_after ?o2"
    by simp_all
  show ?case
  proof (cases ?o1 rule: outcome_cases)
    case (panic f h1' r1)
    with eq obtain h2' where "?o2 = Inl (f, h2', r1)"
      by (cases ?o2 rule: outcome_cases) (auto simp: heap_after_simps)
    with panic show ?thesis by (simp add: vs2 heap_after_simps)
  next
    case (ok h1' r1)
    with eq obtain h2' where o2: "?o2 = Inr (h2', r1)"
      by (cases ?o2 rule: outcome_cases) (auto simp: heap_after_simps)
    have "list_all2 (same_input h1' h2') rest1 rest2"
      using rest PresampledResampler_Resample_Inr(5)[OF ok]
        PresampledResampler_Resample_Inr(5)[OF o2]
      by (auto elim!: list_all2_mono intro: same_input_after)
    from Cons.IH[OF this, of r1] ok o2 show ?thesis by (simp add: vs2)
  qed
qed

lemma Aggregate_empty: "fst (Aggregate a []) = Inr (empty_aggregate a)"
  by (cases a) (simp_all add: empty_aggregate_def sum_values_def Float64s_def quantile_def)

lemma direct_rounds_empty:
  "direct_rounds [] rounds r =
     (None, r\<lparr>sampleAggregates :=
        sampleAggregates r @ replicate (length rounds) (empty_aggregate (aggregator r))\<rparr>)"
proof (induction rounds arbitrary: r)
  case Nil
  show ?case by simp
next
  case (Cons i rounds)
  show ?case
    by (simp add: advance_0 direct_scratch_def append_aggregate_def Aggregate_empty Cons.IH
        replicate_append_same)
qed

lemma BasicResampler_Resample_empty:
  assumes "valid_slice h values" and "slice_len values = 0"
  shows "fault_of (BasicResampler_Resample h b values) = None \<and>
         resampler_after (BasicResampler_Resample h b values) =
           b\<lparr>sampleAggregates := Float64s (sampleAggregates b @
                replicate (nat (iterations b)) (empty_aggregate (aggregator b)))\<rparr>"
proof -
  from contents_length[OF assms(1)] assms(2) have "contents h values = []" by simp
  with BasicResampler_Resample_refines[OF assms(1), of b] show ?thesis
    by (simp add: direct_resample_def direct_rounds_empty finish_def sort_aggregates_def)
qed

lemma table_ok_columns:
  "table_ok table n numValues \<Longrightarrow> counts \<in> set table \<Longrightarrow> int (length counts) = numValues"
  by (auto simp: table_ok_def good_row_def list_all_iff)

section \<open>The claims\<close>

subsection \<open>Lengths that do not match the table\<close>

text \<open>
  C1, as the code has it. \<^verbatim>\<open>PresampledResampler.Resample\<close> does not compare the length of
  \<^verbatim>\<open>values\<close> with \<open>numValues\<close>. With more values than columns (and at least one
  round) the call panics with an index out of range at column \<open>numValues\<close> of the
  first round, before anything is appended, and the resampler is as it was. With
  fewer values than columns the call is not rejected: every round scales the values
  by the first counts of its row, and the results are appended and sorted as usual;
  with the Sum or the Average aggregator the call succeeds and appends one
  aggregate for each round.
\<close>

theorem Resample_length_unchecked:
  assumes "valid_slice h values" and "table_ok (samples p) (iterations p) numValues"
  shows "(numValues < int (slice_len values) \<and> 0 < iterations p \<longrightarrow>
            fault_of (PresampledResampler_Resample h p values) =
              Some (IndexOutOfRange numValues (nat numValues)) \<and>
            resampler_after (PresampledResampler_Resample h p values) = p) \<and>
         (int (slice_len values) < numValues \<longrightarrow>
            (fault_of (PresampledResampler_Resample h p values),
             resampler_after (PresampledResampler_Resample h p values)) =
              finish (accumulate p (map (scaled (contents h values)) (samples p)))) \<and>
         (int (slice_len values) < numValues \<and>
            (aggregator p = SumAggregator \<or> aggregator p = AverageAggregator) \<longrightarrow>
            fault_of (PresampledResampler_Resample h p values) = None \<and>
            length (sampleAggregates (resampler_after (PresampledResampler_Resample h p values))) =
              length (sampleAggregates p) + nat (iterations p))"
proof -
  let ?out = "PresampledResampler_Resample h p values"
  let ?vals = "contents h values"
  have len: "length ?vals = slice_len values" by (rule contents_length[OF assms(1)])
  note R = PresampledResampler_Resample_refines[OF assms(1), of p]
  have long: "fault_of ?out = Some (IndexOutOfRange numValues (nat numValues)) \<and>
      resampler_after ?out = p"
    if "numValues < int (slice_len values)" "0 < iterations p"
    using R presampled_resample_too_long[OF assms(2) that(2), of ?vals] that(1) len by simp
  have short: "(fault_of ?out, resampler_after ?out) =
      finish (accumulate p (map (scaled ?vals) (samples p)))"
    if "int (slice_len values) < numValues"
    using R presampled_resample_accumulate[OF assms(2), of ?vals] that len
    by (simp add: prod_eq_iff)
  have total: "fault_of ?out = None \<and>
      length (sampleAggregates (resampler_after ?out)) =
        length (sampleAggregates p) + nat (iterations p)"
    if "int (slice_len values) < numValues"
      and a: "aggregator p = SumAggregator \<or> aggregator p = AverageAggregator"
  proof -
    from short[OF that(1)] accumulate_total[OF a] have f: "fault_of ?out = None"
      by (simp add: prod_eq_iff finish_fst)
    with PresampledResampler_Resample_fields[of h p "values"] show ?thesis
      by (auto simp: Float64s_length)
  qed
  from long short total show ?thesis by blast
qed

theorem Resample_length_unchecked_witness:
  "valid_slice [[Finite 1, Finite 2]] \<lparr>slice_array = 0, slice_low = 0, slice_len = 2\<rparr> \<and>
   valid_slice [[Finite 1, Finite 2, Finite 3, Finite 4]] \<lparr>slice_array = 0, slice_low = 0, slice_len = 4\<rparr> \<and>
   table_ok (samples (ex_presampled SumAggregator)) (iterations (ex_presampled SumAggregator)) 3 \<and>
   fault_of (PresampledResampler_Resample [[Finite 1, Finite 2, Finite 3, Finite 4]]
     (ex_presampled SumAggregator) \<lparr>slice_array = 0, slice_low = 0, slice_len = 4\<rparr>) =
     Some (IndexOutOfRange 3 3) \<and>
   resampler_after (PresampledResampler_Resample [[Finite 1, Finite 2, Finite 3, Finite 4]]
     (ex_presampled SumAggregator) \<lparr>slice_array = 0, slice_low = 0, slice_len = 4\<rparr>) =
     ex_presampled SumAggregator \<and>
   fault_of (PresampledResampler_Resample [[Finite 1, Finite 2]]
     (ex_presampled SumAggregator) \<lparr>slice_array = 0, slice_low = 0, slice_len = 2\<rparr>) = None \<and>
   length (sampleAggregates (resampler_after (PresampledResampler_Resample [[Finite 1, Finite 2]]
     (ex_presampled SumAggregator) \<lparr>slice_array = 0, slice_low = 0, slice_len = 2\<rparr>))) = 2"
proof -
  have h2: "valid_slice [[Finite 1, Finite 2]] \<lparr>slice_array = 0, slice_low = 0, slice_len = 2\<rparr>"
    by (simp add: valid_slice_def)
  have h4: "valid_slice [[Finite 1, Finite 2, Finite 3, Finite 4]]
      \<lparr>slice_array = 0, slice_low = 0, slice_len = 4\<rparr>"
    by (simp add: valid_slice_def)
  have t: "table_ok (samples (ex_presampled SumAggregator)) (iterations (ex_presampled SumAggregator)) 3"
    by code_simp
  have a: "aggregator (ex_presampled SumAggregator) = SumAggregator"
    "iterations (ex_presampled SumAggregator) = 2" "sampleAggregates (ex_presampled SumAggregator) = []"
    by (simp_all add: ex_presampled_def)
  from Resample_length_unchecked[OF h4 t] a
  have long: "fault_of (PresampledResampler_Resample [[Finite 1, Finite 2, Finite 3, Finite 4]]
       (ex_presampled SumAggregator) \<lparr>slice_array = 0, slice_low = 0, slice_len = 4\<rparr>) =
       Some (IndexOutOfRange 3 3)"
    "resampler_after (PresampledResampler_Resample [[Finite 1, Finite 2, Finite 3, Finite 4]]
       (ex_presampled SumAggregator) \<lparr>slice_array = 0, slice_low = 0, slice_len = 4\<rparr>) =
       ex_presampled SumAggregator"
    by simp_all
  from Resample_length_unchecked[OF h2 t] a
  have short: "fault_of (PresampledResampler_Resample [[Finite 1, Finite 2]]
       (ex_presampled SumAggregator) \<lparr>slice_array = 0, slice_low = 0, slice_len = 2\<rparr>) = None"
    "length (sampleAggregates (resampler_after (PresampledResampler_Resample [[Finite 1, Finite 2]]
       (ex_presampled SumAggregator) \<lparr>slice_array = 0, slice_low = 0, slice_len = 2\<rparr>))) = 2"
    by simp_all
  from h2 h4 t long short show ?thesis by blast
qed

text \<open>
  The claim C1 as the specification states it fails: a resampler built for three
  values accepts two values, and its collection changes.
\<close>

theorem Resample_length_unchecked_counterexample:
  "NewPresampledResampler ex_source SumAggregator 2 3 = Inr (ex_presampled SumAggregator) \<and>
   fault_of (PresampledResampler_Resample [[Finite 1, Finite 2]] (ex_presampled SumAggregator)
     \<lparr>slice_array = 0, slice_low = 0, slice_len = 2\<rparr>) = None \<and>
   sampleAggregates (resampler_after (PresampledResampler_Resample [[Finite 1, Finite 2]]
     (ex_presampled SumAggregator) \<lparr>slice_array = 0, slice_low = 0, slice_len = 2\<rparr>)) =
     [Finite 3, Finite 5]"
  by code_simp

subsection \<open>The empty input\<close>

text \<open>
  C2, as the code has it. For every \<^verbatim>\<open>BasicResampler\<close>, \<^verbatim>\<open>Resample\<close> on an empty
  sequence is not rejected and does not panic: the loop over the positions has no
  position, so no index modulo zero is computed and no draw is made. Each round
  appends the aggregate of the empty scratch sequence (0 for Sum and Average, NaN for
  Quantile), and the collection is then sorted.
\<close>

theorem Resample_empty_input:
  assumes "valid_slice h values" and "slice_len values = 0"
  shows "fault_of (BasicResampler_Resample h b values) = None \<and>
         resampler_after (BasicResampler_Resample h b values) =
           b\<lparr>sampleAggregates := Float64s (sampleAggregates b @
                replicate (nat (iterations b)) (empty_aggregate (aggregator b)))\<rparr> \<and>
         length (sampleAggregates (resampler_after (BasicResampler_Resample h b values))) =
           length (sampleAggregates b) + nat (iterations b)"
  using BasicResampler_Resample_empty[OF assms, of b] by (simp add: Float64s_length)

theorem Resample_empty_input_witness:
  "valid_slice [[]] \<lparr>slice_array = 0, slice_low = 0, slice_len = 0\<rparr> \<and>
   slice_len \<lparr>slice_array = 0, slice_low = 0, slice_len = 0\<rparr> = 0 \<and>
   fault_of (BasicResampler_Resample [[]]
     (NewBasicResampler ex_source (QuantileAggregator (Finite (1 / 2))) 2)
     \<lparr>slice_array = 0, slice_low = 0, slice_len = 0\<rparr>) = None \<and>
   sampleAggregates (resampler_after (BasicResampler_Resample [[]]
     (NewBasicResampler ex_source (QuantileAggregator (Finite (1 / 2))) 2)
     \<lparr>slice_array = 0, slice_low = 0, slice_len = 0\<rparr>)) = [NaN, NaN]"
proof -
  have h: "valid_slice [[]] \<lparr>slice_array = 0, slice_low = 0, slice_len = 0\<rparr>"
    "slice_len \<lparr>slice_array = 0, slice_low = 0, slice_len = 0\<rparr> = 0"
    by (simp_all add: valid_slice_def)
  have s: "Float64s ([] @ replicate (nat 2) NaN) = [NaN, NaN]" by code_simp
  from Resample_empty_input[OF h, of "NewBasicResampler ex_source (QuantileAggregator (Finite (1 / 2))) 2"]
    h s show ?thesis
    by (simp add: NewBasicResampler_def empty_aggregate_def)
qed

text \<open>
  The claim C2 as the specification states it fails: on the empty input, two rounds
  with the Sum aggregator append two zeros.
\<close>

theorem Resample_empty_input_counterexample:
  "fault_of (BasicResampler_Resample [[]] (NewBasicResampler ex_source SumAggregator 2)
     \<lparr>slice_array = 0, slice_low = 0, slice_len = 0\<rparr>) = None \<and>
   sampleAggregates (resampler_after (BasicResampler_Resample [[]]
     (NewBasicResampler ex_source SumAggregator 2)
     \<lparr>slice_array = 0, slice_low = 0, slice_len = 0\<rparr>)) = [Finite 0, Finite 0]"
  by code_simp

subsection \<open>The count table\<close>

text \<open>
  C5. \<^verbatim>\<open>NewPresampledResampler\<close> with \<open>n\<close> iterations and \<open>numValues\<close> values (neither
  negative) returns a resampler whose table has exactly \<open>n\<close> rows, each of
  \<open>numValues\<close> counts, none negative, that sum to \<open>numValues\<close> (\<open>table_ok\<close>). No method
  modifies the table of any resampler \<open>p'\<close>: \<^verbatim>\<open>Resample\<close>, also when it panics, and
  \<^verbatim>\<open>Reset\<close> leave it as it is.
\<close>

theorem table_invariant:
  assumes "0 \<le> n" and "0 \<le> numValues"
  shows "\<exists>p. NewPresampledResampler NewSource a n numValues = Inr p \<and> iterations p = n \<and>
           table_ok (samples p) n numValues \<and>
           samples (resampler_after (PresampledResampler_Resample h p' values)) = samples p' \<and>
           samples (PresampledResampler_Reset p') = samples p'"
proof -
  from NewPresampledResampler_ok[OF assms, of NewSource a] obtain table where
    "NewPresampledResampler NewSource a n numValues =
       Inr \<lparr>aggregator = a, iterations = n, sampleAggregates = [], samples = table\<rparr>"
    "table_ok table n numValues"
    by blast
  moreover have "samples (resampler_after (PresampledResampler_Resample h p' values)) = samples p'"
    using PresampledResampler_Resample_fields[of h p' "values"] by simp
  moreover have "samples (PresampledResampler_Reset p') = samples p'"
    by (simp add: PresampledResampler_Reset_def)
  ultimately show ?thesis by simp
qed

theorem table_invariant_witness:
  "(0 :: int) \<le> 2 \<and> (0 :: int) \<le> 3 \<and>
   (\<exists>p. NewPresampledResampler ex_source SumAggregator 2 3 = Inr p \<and> iterations p = 2 \<and>
      table_ok (samples p) 2 3)"
proof -
  have h: "(0 :: int) \<le> 2" "(0 :: int) \<le> 3" by simp_all
  from table_invariant[OF h, of ex_source SumAggregator] h show ?thesis by blast
qed

lemma table_example:
  "NewPresampledResampler ex_source SumAggregator 2 3 = Inr (ex_presampled SumAggregator)"
  by code_simp

subsection \<open>Accumulation\<close>

text \<open>
  C6. For both resamplers, a \<^verbatim>\<open>Resample\<close> call that returns appends exactly
  \<open>iterations\<close> statistics to \<^verbatim>\<open>sampleAggregates\<close>, keeps every earlier one, and
  leaves the collection sorted ascending (in the order of \<^verbatim>\<open>sort.Float64s\<close>: NaN
  first). After two calls that return, the collection has grown by twice
  \<open>iterations\<close> and is sorted.
\<close>

theorem Resample_accumulates:
  assumes "fault_of (BasicResampler_Resample h b v) = None"
    and "fault_of (PresampledResampler_Resample g p v') = None"
  shows "length (sampleAggregates (resampler_after (BasicResampler_Resample h b v))) =
           length (sampleAggregates b) + nat (iterations b) \<and>
         mset (sampleAggregates b) \<subseteq>#
           mset (sampleAggregates (resampler_after (BasicResampler_Resample h b v))) \<and>
         ascending (sampleAggregates (resampler_after (BasicResampler_Resample h b v))) \<and>
         (fault_of (BasicResampler_Resamples h b [v, w]) = None \<longrightarrow>
            length (sampleAggregates (resampler_after (BasicResampler_Resamples h b [v, w]))) =
              length (sampleAggregates b) + 2 * nat (iterations b) \<and>
            ascending (sampleAggregates (resampler_after (BasicResampler_Resamples h b [v, w])))) \<and>
         length (sampleAggregates (resampler_after (PresampledResampler_Resample g p v'))) =
           length (sampleAggregates p) + nat (iterations p) \<and>
         mset (sampleAggregates p) \<subseteq>#
           mset (sampleAggregates (resampler_after (PresampledResampler_Resample g p v'))) \<and>
         ascending (sampleAggregates (resampler_after (PresampledResampler_Resample g p v'))) \<and>
         (fault_of (PresampledResampler_Resamples g p [v', w']) = None \<longrightarrow>
            length (sampleAggregates (resampler_after (PresampledResampler_Resamples g p [v', w']))) =
              length (sampleAggregates p) + 2 * nat (iterations p) \<and>
            ascending (sampleAggregates (resampler_after (PresampledResampler_Resamples g p [v', w']))))"
proof -
  from fault_of_None[OF assms(1)] obtain h1 b1
    where B1: "BasicResampler_Resample h b v = Inr (h1, b1)" by (metis surj_pair)
  from fault_of_None[OF assms(2)] obtain g1 p1
    where P1: "PresampledResampler_Resample g p v' = Inr (g1, p1)" by (metis surj_pair)
  from BasicResampler_Resample_Inr[OF B1] obtain new1 where
    b1: "iterations b1 = iterations b" "length new1 = nat (iterations b)"
      "sampleAggregates b1 = Float64s (sampleAggregates b @ new1)"
    by auto
  from PresampledResampler_Resample_Inr[OF P1] obtain new3 where
    p1: "iterations p1 = iterations p" "length new3 = nat (iterations p)"
      "sampleAggregates p1 = Float64s (sampleAggregates p @ new3)"
    by auto
  have one: "length (sampleAggregates (resampler_after (BasicResampler_Resample h b v))) =
           length (sampleAggregates b) + nat (iterations b)"
    "mset (sampleAggregates b) \<subseteq>#
           mset (sampleAggregates (resampler_after (BasicResampler_Resample h b v)))"
    "ascending (sampleAggregates (resampler_after (BasicResampler_Resample h b v)))"
    "length (sampleAggregates (resampler_after (PresampledResampler_Resample g p v'))) =
           length (sampleAggregates p) + nat (iterations p)"
    "mset (sampleAggregates p) \<subseteq>#
           mset (sampleAggregates (resampler_after (PresampledResampler_Resample g p v')))"
    "ascending (sampleAggregates (resampler_after (PresampledResampler_Resample g p v')))"
    unfolding B1 P1 heap_after_simps
    by (simp_all add: b1 p1 Float64s_length Float64s_mset Float64s_ascending)
  have twoB: "length (sampleAggregates (resampler_after (BasicResampler_Resamples h b [v, w]))) =
              length (sampleAggregates b) + 2 * nat (iterations b) \<and>
            ascending (sampleAggregates (resampler_after (BasicResampler_Resamples h b [v, w])))"
    if "fault_of (BasicResampler_Resamples h b [v, w]) = None"
  proof -
    from BasicResampler_Resamples_two[OF that] B1 obtain h2 b2 where
      B: "BasicResampler_Resample h1 b1 w = Inr (h2, b2)"
        "BasicResampler_Resamples h b [v, w] = Inr (h2, b2)"
      by auto
    from BasicResampler_Resample_Inr[OF B(1)] obtain new2 where
      "length new2 = nat (iterations b1)"
      "sampleAggregates b2 = Float64s (sampleAggregates b1 @ new2)"
      by auto
    then show ?thesis
      unfolding B heap_after_simps
      by (simp add: b1 Float64s_length Float64s_ascending)
  qed
  have twoP: "length (sampleAggregates (resampler_after (PresampledResampler_Resamples g p [v', w']))) =
              length (sampleAggregates p) + 2 * nat (iterations p) \<and>
            ascending (sampleAggregates (resampler_after (PresampledResampler_Resamples g p [v', w'])))"
    if "fault_of (PresampledResampler_Resamples g p [v', w']) = None"
  proof -
    from PresampledResampler_Resamples_two[OF that] P1 obtain g2 p2 where
      P: "PresampledResampler_Resample g1 p1 w' = Inr (g2, p2)"
        "PresampledResampler_Resamples g p [v', w'] = Inr (g2, p2)"
      by auto
    from PresampledResampler_Resample_Inr[OF P(1)] obtain new4 where
      "length new4 = nat (iterations p1)"
      "sampleAggregates p2 = Float64s (sampleAggregates p1 @ new4)"
      by auto
    then show ?thesis
      unfolding P heap_after_simps
      by (simp add: p1 Float64s_length Float64s_ascending)
  qed
  from one twoB twoP show ?thesis by blast
qed

theorem Resample_accumulates_witness:
  "fault_of (BasicResampler_Resample ex_heap (NewBasicResampler ex_source SumAggregator 2)
      ex_values) = None \<and>
   fault_of (PresampledResampler_Resample ex_heap (ex_presampled AverageAggregator)
      ex_values) = None \<and>
   fault_of (BasicResampler_Resamples ex_heap (NewBasicResampler ex_source SumAggregator 2)
      [ex_values, ex_values]) = None \<and>
   fault_of (PresampledResampler_Resamples ex_heap (ex_presampled AverageAggregator)
      [ex_values, ex_values]) = None \<and>
   length (sampleAggregates (resampler_after (BasicResampler_Resample ex_heap
      (NewBasicResampler ex_source SumAggregator 2) ex_values))) = 2 \<and>
   length (sampleAggregates (resampler_after (BasicResampler_Resamples ex_heap
      (NewBasicResampler ex_source SumAggregator 2) [ex_values, ex_values]))) = 4 \<and>
   length (sampleAggregates (resampler_after (PresampledResampler_Resample ex_heap
      (ex_presampled AverageAggregator) ex_values))) = 2 \<and>
   length (sampleAggregates (resampler_after (PresampledResampler_Resamples ex_heap
      (ex_presampled AverageAggregator) [ex_values, ex_values]))) = 4"
proof -
  have h: "fault_of (BasicResampler_Resample ex_heap (NewBasicResampler ex_source SumAggregator 2)
      ex_values) = None"
    "fault_of (PresampledResampler_Resample ex_heap (ex_presampled AverageAggregator)
      ex_values) = None"
    by code_simp+
  have t: "fault_of (BasicResampler_Resamples ex_heap (NewBasicResampler ex_source SumAggregator 2)
      [ex_values, ex_values]) = None"
    "fault_of (PresampledResampler_Resamples ex_heap (ex_presampled AverageAggregator)
      [ex_values, ex_values]) = None"
    by code_simp+
  from Resample_accumulates[OF h, of ex_values ex_values] h t show ?thesis
    by (simp add: NewBasicResampler_def ex_presampled_def)
qed

subsection \<open>Reset\<close>

text \<open>
  C7. For both resamplers, \<^verbatim>\<open>Reset\<close> empties \<^verbatim>\<open>sampleAggregates\<close> and nothing else:
  afterwards \<^verbatim>\<open>Quantile(q)\<close> is NaN for every \<open>q\<close>; the aggregator, the iteration
  count, the state of the source and the count table are as they were; a second
  \<^verbatim>\<open>Reset\<close> changes nothing.
\<close>

theorem Reset_only_empties:
  "BasicResampler_Reset b = b\<lparr>sampleAggregates := []\<rparr> \<and>
   PresampledResampler_Reset p = p\<lparr>sampleAggregates := []\<rparr> \<and>
   BasicResampler_Quantile (BasicResampler_Reset b) q = Inr NaN \<and>
   PresampledResampler_Quantile (PresampledResampler_Reset p) q = Inr NaN \<and>
   aggregator (BasicResampler_Reset b) = aggregator b \<and>
   iterations (BasicResampler_Reset b) = iterations b \<and>
   r_source (BasicResampler_Reset b) = r_source b \<and>
   aggregator (PresampledResampler_Reset p) = aggregator p \<and>
   iterations (PresampledResampler_Reset p) = iterations p \<and>
   samples (PresampledResampler_Reset p) = samples p \<and>
   BasicResampler_Reset (BasicResampler_Reset b) = BasicResampler_Reset b \<and>
   PresampledResampler_Reset (PresampledResampler_Reset p) = PresampledResampler_Reset p"
  by (simp add: BasicResampler_Reset_def PresampledResampler_Reset_def
      BasicResampler_Quantile_def PresampledResampler_Quantile_def quantile_def)

subsection \<open>Scaling by the counts\<close>

text \<open>
  C8. For a \<^verbatim>\<open>PresampledResampler\<close> whose table has \<open>iterations\<close> rows of
  \<open>len(values)\<close> columns, round \<open>i\<close> of \<^verbatim>\<open>Resample\<close> aggregates the scratch sequence
  with \<open>scratch[j] = values[j] \<times> counts[i][j]\<close> at every position \<open>j\<close>: no value is
  moved or selected by an index, and what the aggregator did to the scratch
  sequence in an earlier round has no effect. The results are appended and sorted by
  \<open>accumulate\<close> and \<open>finish\<close>, as the direct resampler does with its own scratch
  sequences.
\<close>

theorem Presampled_scales_by_count:
  assumes "valid_slice h values"
    and "table_ok (samples p) (iterations p) (int (slice_len values))"
  shows "(fault_of (PresampledResampler_Resample h p values),
          resampler_after (PresampledResampler_Resample h p values)) =
           finish (accumulate p
             (map (\<lambda>counts. map (\<lambda>j. fmul (contents h values ! j) (float64_of_int (counts ! j)))
                [0..<slice_len values]) (samples p))) \<and>
         fault_of (BasicResampler_Resample h b values) =
           fst (finish (accumulate b
             (direct_scratches (contents h values) (r_source b) (nat (iterations b))))) \<and>
         sampleAggregates (resampler_after (BasicResampler_Resample h b values)) =
           sampleAggregates (snd (finish (accumulate b
             (direct_scratches (contents h values) (r_source b) (nat (iterations b))))))"
proof -
  let ?vals = "contents h values"
  have len: "length ?vals = slice_len values" by (rule contents_length[OF assms(1)])
  have rows: "map (scaled ?vals) (samples p) =
      map (\<lambda>counts. map (\<lambda>j. fmul (?vals ! j) (float64_of_int (counts ! j)))
        [0..<slice_len values]) (samples p)"
  proof (rule map_cong[OF refl])
    fix counts assume "counts \<in> set (samples p)"
    from table_ok_columns[OF assms(2) this] have "length ?vals \<le> length counts"
      using len by simp
    from scaled_nth[OF this] len
    show "scaled ?vals counts =
        map (\<lambda>j. fmul (?vals ! j) (float64_of_int (counts ! j))) [0..<slice_len values]"
      by simp
  qed
  have "presampled_resample p ?vals = finish (accumulate p (map (scaled ?vals) (samples p)))"
    by (rule presampled_resample_accumulate[OF assms(2)]) (simp add: len)
  with PresampledResampler_Resample_refines[OF assms(1), of p] rows
  have P: "(fault_of (PresampledResampler_Resample h p values),
          resampler_after (PresampledResampler_Resample h p values)) =
           finish (accumulate p
             (map (\<lambda>counts. map (\<lambda>j. fmul (?vals ! j) (float64_of_int (counts ! j)))
                [0..<slice_len values]) (samples p)))"
    by (simp add: prod_eq_iff)
  from BasicResampler_Resample_refines[OF assms(1), of b] direct_resample_accumulate[of b ?vals]
  have B: "fault_of (BasicResampler_Resample h b values) =
           fst (finish (accumulate b
             (direct_scratches ?vals (r_source b) (nat (iterations b)))))"
    "sampleAggregates (resampler_after (BasicResampler_Resample h b values)) =
           sampleAggregates (snd (finish (accumulate b
             (direct_scratches ?vals (r_source b) (nat (iterations b))))))"
    by simp_all
  from P B show ?thesis by blast
qed

theorem Presampled_scales_by_count_witness:
  "valid_slice ex_heap ex_values \<and>
   table_ok (samples (ex_presampled SumAggregator)) (iterations (ex_presampled SumAggregator))
     (int (slice_len ex_values)) \<and>
   fault_of (PresampledResampler_Resample ex_heap (ex_presampled SumAggregator) ex_values) = None \<and>
   sampleAggregates (resampler_after
     (PresampledResampler_Resample ex_heap (ex_presampled SumAggregator) ex_values)) =
     [Finite 5, Finite 6]"
proof -
  have h: "valid_slice ex_heap ex_values" by code_simp
  have t: "table_ok (samples (ex_presampled SumAggregator)) (iterations (ex_presampled SumAggregator))
     (int (slice_len ex_values))"
    by code_simp
  have e: "fst (finish (accumulate (ex_presampled SumAggregator)
       (map (\<lambda>counts. map (\<lambda>j. fmul (contents ex_heap ex_values ! j) (float64_of_int (counts ! j)))
          [0..<slice_len ex_values]) (samples (ex_presampled SumAggregator))))) = None"
    "sampleAggregates (snd (finish (accumulate (ex_presampled SumAggregator)
       (map (\<lambda>counts. map (\<lambda>j. fmul (contents ex_heap ex_values ! j) (float64_of_int (counts ! j)))
          [0..<slice_len ex_values]) (samples (ex_presampled SumAggregator)))))) =
       [Finite 5, Finite 6]"
    by code_simp+
  from Presampled_scales_by_count[OF h t, THEN conjunct1] e
  have "fault_of (PresampledResampler_Resample ex_heap (ex_presampled SumAggregator) ex_values) = None"
    "sampleAggregates (resampler_after
       (PresampledResampler_Resample ex_heap (ex_presampled SumAggregator) ex_values)) =
       [Finite 5, Finite 6]"
    by (simp_all add: prod_eq_iff)
  with h t show ?thesis by blast
qed

subsection \<open>Determinism\<close>

text \<open>
  C9. Two resamplers of the same variant, built with the same aggregator and
  iterations (and \<open>numValues\<close>), and given inputs with the same elements, one call
  after the other, end with the same collection, the same panic if any, and the
  same \<^verbatim>\<open>Quantile(q)\<close> for every \<open>q\<close>. The inputs may lie in different stores, at
  different addresses.
\<close>

theorem Resample_deterministic:
  assumes "list_all2 (same_input h1 h2) vs1 vs2" and "list_all2 (same_input g1 g2) ws1 ws2"
    and "b1 = NewBasicResampler NewSource a n" and "b2 = NewBasicResampler NewSource a n"
    and "NewPresampledResampler NewSource a n numValues = Inr p1"
    and "NewPresampledResampler NewSource a n numValues = Inr p2"
  shows "fault_of (BasicResampler_Resamples h1 b1 vs1) = fault_of (BasicResampler_Resamples h2 b2 vs2) \<and>
         sampleAggregates (resampler_after (BasicResampler_Resamples h1 b1 vs1)) =
           sampleAggregates (resampler_after (BasicResampler_Resamples h2 b2 vs2)) \<and>
         BasicResampler_Quantile (resampler_after (BasicResampler_Resamples h1 b1 vs1)) q =
           BasicResampler_Quantile (resampler_after (BasicResampler_Resamples h2 b2 vs2)) q \<and>
         fault_of (PresampledResampler_Resamples g1 p1 ws1) =
           fault_of (PresampledResampler_Resamples g2 p2 ws2) \<and>
         sampleAggregates (resampler_after (PresampledResampler_Resamples g1 p1 ws1)) =
           sampleAggregates (resampler_after (PresampledResampler_Resamples g2 p2 ws2)) \<and>
         PresampledResampler_Quantile (resampler_after (PresampledResampler_Resamples g1 p1 ws1)) q =
           PresampledResampler_Quantile (resampler_after (PresampledResampler_Resamples g2 p2 ws2)) q"
proof -
  from assms(3,4) have b: "b2 = b1" by simp
  from assms(5,6) have p: "p2 = p1" by simp
  from BasicResampler_Resamples_deterministic[OF assms(1), of b1]
    PresampledResampler_Resamples_deterministic[OF assms(2), of p1]
  show ?thesis
    unfolding b p by (simp add: BasicResampler_Quantile_def PresampledResampler_Quantile_def)
qed

theorem Resample_deterministic_witness:
  "list_all2 (same_input ex_heap [[Finite 4], [Finite 3, Finite 1, Finite 2]])
     [ex_values, ex_values]
     [\<lparr>slice_array = 1, slice_low = 0, slice_len = 3\<rparr>, \<lparr>slice_array = 1, slice_low = 0, slice_len = 3\<rparr>] \<and>
   NewPresampledResampler ex_source SumAggregator 2 3 = Inr (ex_presampled SumAggregator) \<and>
   sampleAggregates (resampler_after (BasicResampler_Resamples [[Finite 4], [Finite 3, Finite 1, Finite 2]]
     (NewBasicResampler ex_source SumAggregator 2)
     [\<lparr>slice_array = 1, slice_low = 0, slice_len = 3\<rparr>, \<lparr>slice_array = 1, slice_low = 0, slice_len = 3\<rparr>])) =
     [Finite 5, Finite 6, Finite 7, Finite 7] \<and>
   sampleAggregates (resampler_after (PresampledResampler_Resamples [[Finite 4], [Finite 3, Finite 1, Finite 2]]
     (ex_presampled SumAggregator)
     [\<lparr>slice_array = 1, slice_low = 0, slice_len = 3\<rparr>, \<lparr>slice_array = 1, slice_low = 0, slice_len = 3\<rparr>])) =
     [Finite 5, Finite 5, Finite 6, Finite 6]"
proof -
  have h: "list_all2 (same_input ex_heap [[Finite 4], [Finite 3, Finite 1, Finite 2]])
     [ex_values, ex_values]
     [\<lparr>slice_array = 1, slice_low = 0, slice_len = 3\<rparr>, \<lparr>slice_array = 1, slice_low = 0, slice_len = 3\<rparr>]"
    by code_simp
  have c: "NewPresampledResampler ex_source SumAggregator 2 3 = Inr (ex_presampled SumAggregator)"
    by code_simp
  have e: "sampleAggregates (resampler_after (BasicResampler_Resamples ex_heap
       (NewBasicResampler ex_source SumAggregator 2) [ex_values, ex_values])) =
       [Finite 5, Finite 6, Finite 7, Finite 7]"
    "sampleAggregates (resampler_after (PresampledResampler_Resamples ex_heap
       (ex_presampled SumAggregator) [ex_values, ex_values])) =
       [Finite 5, Finite 5, Finite 6, Finite 6]"
    by code_simp+
  from Resample_deterministic[OF h h refl refl c c] e h c show ?thesis by simp
qed

subsection \<open>The input is not modified\<close>

text \<open>
  C10. For both resamplers and each of the three aggregators, \<^verbatim>\<open>Resample(values)\<close>
  writes to its own scratch array only: every array that existed before the call,
  and so every element of \<^verbatim>\<open>values\<close>, is unchanged after it, whether the call
  returns or panics.
\<close>

theorem Resample_keeps_input:
  assumes "valid_slice h values"
  shows "contents (heap_after (BasicResampler_Resample h b values)) values = contents h values \<and>
         take (length h) (heap_after (BasicResampler_Resample h b values)) = h \<and>
         contents (heap_after (PresampledResampler_Resample h p values)) values = contents h values \<and>
         take (length h) (heap_after (PresampledResampler_Resample h p values)) = h"
  using contents_take[OF assms BasicResampler_Resample_heap[of h b "values"]]
    contents_take[OF assms PresampledResampler_Resample_heap[of h p "values"]]
  by (simp add: BasicResampler_Resample_heap PresampledResampler_Resample_heap)

theorem Resample_keeps_input_witness:
  "valid_slice ex_heap ex_values \<and>
   contents (heap_after (BasicResampler_Resample ex_heap
     (NewBasicResampler ex_source (QuantileAggregator (Finite (1 / 2))) 2) ex_values)) ex_values =
     [Finite 3, Finite 1, Finite 2] \<and>
   contents (heap_after (PresampledResampler_Resample ex_heap
     (ex_presampled (QuantileAggregator (Finite (1 / 2)))) ex_values)) ex_values =
     [Finite 3, Finite 1, Finite 2]"
proof -
  have h: "valid_slice ex_heap ex_values" by code_simp
  have c: "contents ex_heap ex_values = [Finite 3, Finite 1, Finite 2]" by code_simp
  from Resample_keeps_input[OF h] h c show ?thesis by simp
qed

text \<open>
  The quantile aggregator does sort the scratch array in place: after the calls
  of the witness the new array of the store is sorted, and the input is as it was.
\<close>

lemma quantile_aggregator_sorts_scratch:
  "heap_after (BasicResampler_Resample ex_heap
     (NewBasicResampler ex_source (QuantileAggregator (Finite (1 / 2))) 2) ex_values) =
     [[Finite 7, Finite 3, Finite 1, Finite 2, Finite 9], [Finite 1, Finite 1, Finite 3]] \<and>
   heap_after (PresampledResampler_Resample ex_heap
     (ex_presampled (QuantileAggregator (Finite (1 / 2)))) ex_values) =
     [[Finite 7, Finite 3, Finite 1, Finite 2, Finite 9], [Finite 0, Finite 2, Finite 3]]"
  by code_simp

end
